theory Spec2Isabelle
  imports
    Complex_Main
    "HOL-Library.Word"
    "HOL-Library.Signed_Division"
    "HOL-Library.Multiset"
    "HOL-Library.Product_Lexorder"
begin

section \<open>Values of the benchmarker\<close>

text \<open>
  \<^verbatim>\<open>time.Duration\<close> is an \<^verbatim>\<open>int64\<close> count of nanoseconds: a 64-bit word read in two's
  complement (\<open>sint\<close>); \<open>+\<close> wraps around as Go's does.
\<close>

type_synonym duration = "64 word"

type_synonym byte = "8 word"

text \<open>
  The run-time panics of the Go runtime that the program can raise, and the one the program
  raises itself (\<^verbatim>\<open>panic("Unsupported type")\<close>).
\<close>

datatype panic =
    DivideByZero          \<comment> \<open>\<^verbatim>\<open>runtime error: integer divide by zero\<close>\<close>
  | IndexOutOfRange       \<comment> \<open>\<^verbatim>\<open>runtime error: index out of range\<close>\<close>
  | UnsupportedType       \<comment> \<open>\<^verbatim>\<open>panic("Unsupported type")\<close>\<close>
  | MakeSliceLenOutOfRange  \<comment> \<open>\<^verbatim>\<open>panic: runtime error: makeslice: len out of range\<close>\<close>

text \<open>
  A \<^verbatim>\<open>float64\<close> is not-a-number, an infinity or a finite number, kept as the rational
  it denotes (a zero is \<open>+0\<close>: the sign of zero is not modelled). Comparison and division by
  zero follow IEEE 754, as Go's do: every comparison with NaN is false, a non-zero number over
  zero is an infinity, zero over zero is NaN.
\<close>

datatype float64 = NaN | NegInf | Finite rat | PosInf

fun float64_less :: "float64 \<Rightarrow> float64 \<Rightarrow> bool" where
  "float64_less NaN _ = False"
| "float64_less _ NaN = False"
| "float64_less (Finite a) (Finite b) = (a < b)"
| "float64_less NegInf NegInf = False"
| "float64_less NegInf _ = True"
| "float64_less _ NegInf = False"
| "float64_less PosInf _ = False"
| "float64_less _ PosInf = True"

text \<open>
  Every arithmetic operation on \<^verbatim>\<open>float64\<close> returns the exact result rounded to binary64.
  \<open>int_bit_length n\<close> is the number of binary digits of a positive \<open>n\<close>, and
  \<open>floor_log2 q\<close> the exponent \<open>e\<close> with \<open>2^e \<le> q < 2^(e+1)\<close> of a positive rational.
\<close>

function int_bit_length :: "int \<Rightarrow> int" where
  "int_bit_length n = (if n \<le> 0 then 0 else 1 + int_bit_length (n div 2))"
  by pat_completeness auto
termination
  by (relation "measure nat") auto
declare int_bit_length.simps [simp del]

definition floor_log2 :: "rat \<Rightarrow> int" where
  "floor_log2 q =
     (let (a, b) = quotient_of q;
          k = int_bit_length a - int_bit_length b
      in if 2 powi k \<le> q then k else k - 1)"

text \<open>Rounding to the nearest integer, a tie going to the even one.\<close>

definition round_half_even :: "rat \<Rightarrow> int" where
  "round_half_even x =
     (let n = \<lfloor>x\<rfloor>; f = x - of_int n
      in if 1 / 2 < f \<or> (f = 1 / 2 \<and> odd n) then n + 1 else n)"

text \<open>
  Rounding to binary64: a number of binary exponent \<open>e\<close> is rounded to a multiple of
  \<open>2^(e-52)\<close> (53 significant bits), a number below \<open>2^-1022\<close> to a multiple of
  \<open>2^-1074\<close> (gradual underflow), and a result that reaches \<open>2^1024\<close> in
  magnitude is the infinity of its sign.
\<close>

definition float64_round :: "rat \<Rightarrow> float64" where
  "float64_round q =
     (if q = 0 then Finite 0
      else let e = max (floor_log2 \<bar>q\<bar>) (- 1022);
               ulp = 2 powi (e - 52);
               mag = of_int (round_half_even (\<bar>q\<bar> / ulp)) * ulp
           in if 2 powi 1024 \<le> mag then (if 0 < q then PosInf else NegInf)
              else Finite (sgn q * mag))"

text \<open>
  \<^verbatim>\<open>float64(n)\<close> for an integer \<open>n\<close>, and \<^verbatim>\<open>/\<close> and \<^verbatim>\<open>+\<close> on \<^verbatim>\<open>float64\<close>.
\<close>

definition float64_of_int :: "int \<Rightarrow> float64" where
  "float64_of_int n = float64_round (of_int n)"

fun float64_div :: "float64 \<Rightarrow> float64 \<Rightarrow> float64" where
  "float64_div NaN _ = NaN"
| "float64_div _ NaN = NaN"
| "float64_div (Finite a) (Finite b) =
     (if b = 0 then (if a = 0 then NaN else if 0 < a then PosInf else NegInf)
      else float64_round (a / b))"
| "float64_div (Finite a) _ = Finite 0"
| "float64_div PosInf (Finite b) = (if b < 0 then NegInf else PosInf)"
| "float64_div NegInf (Finite b) = (if b < 0 then PosInf else NegInf)"
| "float64_div _ _ = NaN"

fun float64_add :: "float64 \<Rightarrow> float64 \<Rightarrow> float64" where
  "float64_add NaN _ = NaN"
| "float64_add _ NaN = NaN"
| "float64_add (Finite a) (Finite b) = float64_round (a + b)"
| "float64_add PosInf NegInf = NaN"
| "float64_add NegInf PosInf = NaN"
| "float64_add PosInf _ = PosInf"
| "float64_add NegInf _ = NegInf"
| "float64_add _ y = y"

text \<open>
  \<^verbatim>\<open>
  func (d Duration) Seconds() float64 {
      sec := d / Second
      nsec := d % Second
      return float64(sec) + float64(nsec)/1e9
  }
  \<close>
  with Go's truncating \<^verbatim>\<open>/\<close> and \<^verbatim>\<open>%\<close> on \<^verbatim>\<open>int64\<close> (\<open>sdiv\<close> and \<open>smod\<close>).
\<close>

definition Seconds :: "duration \<Rightarrow> float64" where
  "Seconds d =
     (let sec = sint d sdiv 1000000000;
          nsec = sint d smod 1000000000
      in float64_add (float64_of_int sec) (float64_div (float64_of_int nsec) (Finite 1000000000)))"


section \<open>The statistics: \<^verbatim>\<open>calculateAverage\<close> and \<^verbatim>\<open>calculateP90\<close>\<close>

text \<open>
  Go's \<^verbatim>\<open>/\<close> on \<^verbatim>\<open>int64\<close>: it panics on a zero divisor and truncates towards zero
  (\<open>sdiv\<close> on \<open>int\<close>); the quotient wraps around for the one overflowing case.
\<close>

definition int64_div :: "duration \<Rightarrow> duration \<Rightarrow> panic + duration" where
  "int64_div a b = (if b = 0 then Inl DivideByZero else Inr (word_of_int (sint a sdiv sint b)))"

text \<open>
  \<^verbatim>\<open>
  func calculateAverage(times []time.Duration) time.Duration {
      var totalTime time.Duration
      for _, t := range times { totalTime += t }
      return totalTime / time.Duration(len(times))
  }
  \<close>
\<close>

definition calculateAverage :: "duration list \<Rightarrow> panic + duration" where
  "calculateAverage ts =
     (let totalTime = foldl (+) 0 ts
      in int64_div totalTime (word_of_nat (length ts)))"

text \<open>
  The comparison function handed to \<^verbatim>\<open>sort.Slice\<close> switches on the dynamic type of the
  slice. The type parameter \<^verbatim>\<open>T\<close> fixes the arm once and for all, so the model has one
  comparison per arm: signed \<open><\<close> on \<^verbatim>\<open>[]time.Duration\<close>, IEEE \<open><\<close> on
  \<^verbatim>\<open>[]float64\<close>, and the panic of the \<^verbatim>\<open>default\<close> arm for every other element type.
\<close>

definition less_Duration :: "duration \<Rightarrow> duration \<Rightarrow> panic + bool" where
  "less_Duration x y = Inr (x <s y)"

definition less_float64 :: "float64 \<Rightarrow> float64 \<Rightarrow> panic + bool" where
  "less_float64 x y = Inr (float64_less x y)"

definition less_default :: "'a \<Rightarrow> 'a \<Rightarrow> panic + bool" where
  "less_default x y = Inl UnsupportedType"

text \<open>
  \<^verbatim>\<open>sort.Slice(x, less)\<close> of the Go standard library sorts in place. For a slice of at most
  12 elements it runs exactly this insertion sort over the index range \<open>[0, len)\<close>:
  \<^verbatim>\<open>
  for i := a + 1; i < b; i++ {
      for j := i; j > a && data.Less(j, j-1); j-- { data.Swap(j, j-1) }
  }
  \<close>
  Longer slices are sorted by pattern-defeating quicksort, which also calls \<^verbatim>\<open>less\<close> before
  its first swap and, for a strict weak order, leaves a sorted permutation, as this loop does.
  A panic of \<^verbatim>\<open>less\<close> ends the sort.
\<close>

fun insertionSort_inner ::
  "('a \<Rightarrow> 'a \<Rightarrow> panic + bool) \<Rightarrow> 'a list \<Rightarrow> nat \<Rightarrow> panic + 'a list" where
  "insertionSort_inner lt data 0 = Inr data"
| "insertionSort_inner lt data (Suc j) =
     (case lt (data ! Suc j) (data ! j) of
        Inl p \<Rightarrow> Inl p
      | Inr False \<Rightarrow> Inr data
      | Inr True \<Rightarrow> insertionSort_inner lt (data[Suc j := data ! j, j := data ! Suc j]) j)"

function insertionSort_func ::
  "('a \<Rightarrow> 'a \<Rightarrow> panic + bool) \<Rightarrow> 'a list \<Rightarrow> nat \<Rightarrow> nat \<Rightarrow> panic + 'a list" where
  "insertionSort_func lt data i b =
     (if i < b then
        (case insertionSort_inner lt data i of
           Inl p \<Rightarrow> Inl p
         | Inr data' \<Rightarrow> insertionSort_func lt data' (i + 1) b)
      else Inr data)"
  by pat_completeness auto
termination
  by (relation "measure (\<lambda>(lt, data, i, b). b - i)") auto

declare insertionSort_func.simps [simp del]

definition sort_Slice :: "('a \<Rightarrow> 'a \<Rightarrow> panic + bool) \<Rightarrow> 'a list \<Rightarrow> panic + 'a list" where
  "sort_Slice lt x = insertionSort_func lt x 1 (length x)"

text \<open>
  \<^verbatim>\<open>int(0.9 * float64(len(values)))\<close>, with the rounding of binary64 written out.
  \<open>round_to_float64 m\<close> is the natural number \<open>m\<close> rounded to 53 significant bits, ties to
  even. The constant \<^verbatim>\<open>0.9\<close> is the float64 \<open>8106479329266893 / 2 ^ 53\<close>, so the product
  is \<open>8106479329266893 * float64(len)\<close> rounded to 53 bits and scaled by \<open>2 ^ 53\<close>, and
  the conversion to \<^verbatim>\<open>int\<close> drops the fraction.
\<close>

fun bit_length :: "nat \<Rightarrow> nat" where
  "bit_length n = (if n = 0 then 0 else Suc (bit_length (n div 2)))"

declare bit_length.simps [simp del]

definition round_to_float64 :: "nat \<Rightarrow> nat" where
  "round_to_float64 m =
     (if m < 2 ^ 53 then m
      else let s = bit_length m - 53;
               q = m div 2 ^ s;
               r = m mod 2 ^ s;
               half = 2 ^ (s - 1)
           in (if half < r \<or> (r = half \<and> odd q) then q + 1 else q) * 2 ^ s)"

definition p90Index :: "nat \<Rightarrow> nat" where
  "p90Index len = round_to_float64 (8106479329266893 * round_to_float64 len) div 2 ^ 53"

text \<open>
  \<^verbatim>\<open>
  func calculateP90[T any](values []T) T {
      sort.Slice(values, func(i, j int) bool { switch any(values).(type) { ... } })
      p90Index := int(0.9 * float64(len(values)))
      return values[p90Index]
  }
  \<close>
  The slice shares its backing array with the caller's, so the sort is visible to the caller:
  the model returns the selected element together with the contents of that array after the
  call.
\<close>

definition calculateP90 :: "('a \<Rightarrow> 'a \<Rightarrow> panic + bool) \<Rightarrow> 'a list \<Rightarrow> panic + ('a \<times> 'a list)" where
  "calculateP90 lt values =
     (case sort_Slice lt values of
        Inl p \<Rightarrow> Inl p
      | Inr values' \<Rightarrow>
          (if p90Index (length values') < length values'
           then Inr (values' ! p90Index (length values'), values')
           else Inl IndexOutOfRange))"


section \<open>The trial runner: \<^verbatim>\<open>uploadFiles\<close> and \<^verbatim>\<open>downloadFiles\<close>\<close>

text \<open>
  The storage client, the clock and the random source are the program's environment. A run is
  sequential, so what the environment answers is a function of the trial and of the request:
  \<^item> \<open>PutObject i bucket key data\<close>: the upload of trial \<open>i\<close> failed, or it succeeded and
    \<^verbatim>\<open>time.Since(startTime)\<close> then read the given duration;
  \<^item> \<open>GetObject i bucket key\<close>: \<^verbatim>\<open>GetObject\<close> failed, or \<^verbatim>\<open>io.Copy\<close> failed, or the
    payload was drained, with the byte count of \<^verbatim>\<open>io.Copy\<close> and the duration that
    \<^verbatim>\<open>time.Since(startTime)\<close> would read;
  \<^item> \<open>GetObject_Stat i bucket key\<close>, for the program listed in \<^verbatim>\<open>README.md\<close>, which
    calls \<^verbatim>\<open>payload.Stat()\<close> instead of draining the payload: \<^verbatim>\<open>GetObject\<close> failed, or
    \<^verbatim>\<open>Stat\<close> failed, or \<^verbatim>\<open>Stat\<close> gave the size of the object and
    \<^verbatim>\<open>time.Since(startTime)\<close> then read the given duration;
  \<^item> \<open>rand_Read i k\<close>: byte \<open>k\<close> of the buffer that \<^verbatim>\<open>rand.Read\<close> fills in trial \<open>i\<close>;
  \<^item> \<open>available_memory\<close>: the size in bytes of the largest buffer that the operating
    system gives the Go runtime when \<^verbatim>\<open>uploadFiles\<close> allocates its buffer.
  Go's \<^verbatim>\<open>int\<close> is \<open>int\<close> here; the one place where the program can overflow it
  (\<^verbatim>\<open>fileSizeMb *= 1024 * 1024\<close>) wraps around explicitly. The loop counter cannot
  overflow in a run that ends: a series of \<open>2^63 - 1\<close> samples does not fit in memory.
  Printing the progress lines has no effect on the results and is left out.
\<close>

datatype put_outcome = PutError | PutOk duration

datatype get_outcome = GetError | CopyError | GetOk int duration

datatype stat_outcome = StatGetError | StatStatError | StatOk int duration

record backend =
  PutObject :: "int \<Rightarrow> string \<Rightarrow> string \<Rightarrow> byte list \<Rightarrow> put_outcome"
  GetObject :: "int \<Rightarrow> string \<Rightarrow> string \<Rightarrow> get_outcome"
  GetObject_Stat :: "int \<Rightarrow> string \<Rightarrow> string \<Rightarrow> stat_outcome"
  rand_Read :: "int \<Rightarrow> nat \<Rightarrow> byte"
  available_memory :: int

text \<open>How the process ends when it prints no report.\<close>

datatype abort =
    MissingParameter                \<comment> \<open>usage message, \<^verbatim>\<open>os.Exit(1)\<close>\<close>
  | ClientError                     \<comment> \<open>\<^verbatim>\<open>Error creating MinIO client\<close>\<close>
  | UploadError string string       \<comment> \<open>\<^verbatim>\<open>Unable to upload key to bucket\<close>\<close>
  | DownloadError string string     \<comment> \<open>\<^verbatim>\<open>Unable to download key from bucket\<close>\<close>
  | ReceiveError string string      \<comment> \<open>\<^verbatim>\<open>Unable to receive key from bucket\<close>\<close>
  | UnmatchedSizes int int          \<comment> \<open>\<^verbatim>\<open>Unmatched sizes: actual, expected\<close>\<close>
  | StatError string string         \<comment> \<open>\<^verbatim>\<open>Unable to get stat for key from bucket\<close>\<close>
  | OutOfMemory                     \<comment> \<open>\<^verbatim>\<open>fatal error: runtime: out of memory\<close>\<close>
  | RuntimePanic panic

text \<open>\<^verbatim>\<open>fmt.Sprintf("%d", i)\<close>: the decimal digits, after a minus sign for a negative number.\<close>

fun digits :: "nat \<Rightarrow> string" where
  "digits n = (if n < 10 then [char_of (48 + n)] else digits (n div 10) @ [char_of (48 + n mod 10)])"

declare digits.simps [simp del]

definition Sprintf_d :: "int \<Rightarrow> string" where
  "Sprintf_d i = (if i < 0 then CHR ''-'' # digits (nat (- i)) else digits (nat i))"

text \<open>
  \<^verbatim>\<open>float64(nbytes) / duration.Seconds() / 1024 / 1024\<close>, the speed of both loops:
  \<open>nbytes\<close> is \<^verbatim>\<open>fileSize\<close> in the upload loop and \<^verbatim>\<open>payloadSize\<close> in the download loop.
\<close>

definition speed_MBps :: "int \<Rightarrow> duration \<Rightarrow> float64" where
  "speed_MBps nbytes d =
     float64_div (float64_div (float64_div (float64_of_int nbytes) (Seconds d)) (Finite 1024)) (Finite 1024)"

text \<open>
  The state of the upload loop: the two series, and the requests sent so far (a ghost field:
  the program keeps no such list, the storage service sees it).
\<close>

record upload_state =
  uploadTimes :: "duration list"
  uploadSpeeds :: "float64 list"
  put_requests :: "(string \<times> string \<times> byte list) list"

function upload_loop ::
  "backend \<Rightarrow> string \<Rightarrow> int \<Rightarrow> int \<Rightarrow> int \<Rightarrow> upload_state \<Rightarrow> abort + upload_state" where
  "upload_loop B bucketName fileSize numFiles i st =
     (if i \<le> numFiles then
        (let data = map (rand_Read B i) [0..<nat fileSize];
             key = ''file-'' @ Sprintf_d i @ ''.dat''
         in case PutObject B i bucketName key data of
              PutError \<Rightarrow> Inl (UploadError key bucketName)
            | PutOk d \<Rightarrow>
                upload_loop B bucketName fileSize numFiles (i + 1)
                  \<lparr> uploadTimes = uploadTimes st @ [d],
                    uploadSpeeds = uploadSpeeds st @ [speed_MBps fileSize d],
                    put_requests = put_requests st @ [(bucketName, key, data)] \<rparr>)
      else Inr st)"
  by pat_completeness auto
termination
  by (relation "measure (\<lambda>(B, bucketName, fileSize, numFiles, i, st). nat (numFiles + 1 - i))") auto

declare upload_loop.simps [simp del]

text \<open>
  \<^verbatim>\<open>data = make([]byte, fileSize)\<close> is evaluated before the loop, whatever the trial count
  is. \<^verbatim>\<open>runtime.makeslice\<close> panics with \<^verbatim>\<open>len out of range\<close> for a negative length and
  for a size above \<^verbatim>\<open>maxAlloc\<close>, the size of the address space that the allocator manages:
  \<open>2^48\<close> bytes on linux/amd64 and on the other 64-bit platforms that Go supports, apart
  from ios/arm64 and wasm. Below that limit it asks the allocator for the buffer, and the
  process dies with \<^verbatim>\<open>fatal error: runtime: out of memory\<close> when the operating system
  does not give it. Then the loop runs from trial 1. (The series that \<^verbatim>\<open>append\<close> grows
  take 16 bytes a trial; the memory for them is taken to be there.)
\<close>

definition maxAlloc :: int where
  "maxAlloc = 2 ^ 48"

definition upload_trials :: "backend \<Rightarrow> string \<Rightarrow> int \<Rightarrow> int \<Rightarrow> abort + upload_state" where
  "upload_trials B bucketName fileSize numFiles =
     (if fileSize < 0 \<or> maxAlloc < fileSize then Inl (RuntimePanic MakeSliceLenOutOfRange)
      else if available_memory B < fileSize then Inl OutOfMemory
      else upload_loop B bucketName fileSize numFiles 1
             \<lparr> uploadTimes = [], uploadSpeeds = [], put_requests = [] \<rparr>)"

definition uploadFiles ::
  "backend \<Rightarrow> string \<Rightarrow> int \<Rightarrow> int \<Rightarrow> abort + (duration list \<times> float64 list)" where
  "uploadFiles B bucketName fileSize numFiles =
     (case upload_trials B bucketName fileSize numFiles of
        Inl a \<Rightarrow> Inl a
      | Inr st \<Rightarrow> Inr (uploadTimes st, uploadSpeeds st))"

record download_state =
  downloadTimes :: "duration list"
  downloadSpeeds :: "float64 list"
  get_requests :: "(string \<times> string) list"

function download_loop ::
  "backend \<Rightarrow> string \<Rightarrow> int \<Rightarrow> int \<Rightarrow> int \<Rightarrow> download_state \<Rightarrow> abort + download_state" where
  "download_loop B bucketName expectedFileSize numFiles i st =
     (if i \<le> numFiles then
        (let key = ''file-'' @ Sprintf_d i @ ''.dat''
         in case GetObject B i bucketName key of
              GetError \<Rightarrow> Inl (DownloadError key bucketName)
            | CopyError \<Rightarrow> Inl (ReceiveError key bucketName)
            | GetOk payloadSize d \<Rightarrow>
                (if payloadSize \<noteq> expectedFileSize
                 then Inl (UnmatchedSizes payloadSize expectedFileSize)
                 else download_loop B bucketName expectedFileSize numFiles (i + 1)
                        \<lparr> downloadTimes = downloadTimes st @ [d],
                          downloadSpeeds = downloadSpeeds st @ [speed_MBps payloadSize d],
                          get_requests = get_requests st @ [(bucketName, key)] \<rparr>))
      else Inr st)"
  by pat_completeness auto
termination
  by (relation "measure (\<lambda>(B, bucketName, expectedFileSize, numFiles, i, st). nat (numFiles + 1 - i))") auto

declare download_loop.simps [simp del]

definition download_trials :: "backend \<Rightarrow> string \<Rightarrow> int \<Rightarrow> int \<Rightarrow> abort + download_state" where
  "download_trials B bucketName expectedFileSize numFiles =
     download_loop B bucketName expectedFileSize numFiles 1
       \<lparr> downloadTimes = [], downloadSpeeds = [], get_requests = [] \<rparr>"

definition downloadFiles ::
  "backend \<Rightarrow> string \<Rightarrow> int \<Rightarrow> int \<Rightarrow> abort + (duration list \<times> float64 list)" where
  "downloadFiles B bucketName expectedFileSize numFiles =
     (case download_trials B bucketName expectedFileSize numFiles of
        Inl a \<Rightarrow> Inl a
      | Inr st \<Rightarrow> Inr (downloadTimes st, downloadSpeeds st))"

text \<open>
  \<^verbatim>\<open>README.md\<close> lists a second version of the program. Its \<^verbatim>\<open>calculateAverage\<close>,
  \<^verbatim>\<open>calculateP90\<close> and \<^verbatim>\<open>uploadFiles\<close> are those of \<^verbatim>\<open>main.go\<close> (they differ in what
  they print); its \<^verbatim>\<open>downloadFiles\<close> is another function:
  \<^verbatim>\<open>
  func downloadFiles(minioClient *minio.Client, bucketName string, fileSize, numFiles int) ... {
      for i := 1; i <= numFiles; i++ {
          key := fmt.Sprintf("file-%d.dat", i)
          startTime := time.Now()
          payload, err := minioClient.GetObject(context.Background(), bucketName, key, ...)
          if err != nil { log.Fatalf(`Unable to download %s from %s, %v`, key, bucketName, err) }
          payloadStat, err := payload.Stat()
          if err != nil { log.Fatalf(`Unable to get stat for %s from %s, %v`, key, bucketName, err) }
          duration := time.Since(startTime)
          downloadTimes = append(downloadTimes, duration)
          downloadSpeed := float64(fileSize) / duration.Seconds() / 1024 / 1024
          downloadSpeeds = append(downloadSpeeds, downloadSpeed)
          log.Printf(`   size=%d, duration=%s`, payloadStat.Size, duration)
      }
      return downloadTimes, downloadSpeeds
  }
  \<close>
  The size of the object is printed and nothing else is done with it.
\<close>

function download_loop_README ::
  "backend \<Rightarrow> string \<Rightarrow> int \<Rightarrow> int \<Rightarrow> int \<Rightarrow> download_state \<Rightarrow> abort + download_state" where
  "download_loop_README B bucketName fileSize numFiles i st =
     (if i \<le> numFiles then
        (let key = ''file-'' @ Sprintf_d i @ ''.dat''
         in case GetObject_Stat B i bucketName key of
              StatGetError \<Rightarrow> Inl (DownloadError key bucketName)
            | StatStatError \<Rightarrow> Inl (StatError key bucketName)
            | StatOk payloadStat_Size d \<Rightarrow>
                download_loop_README B bucketName fileSize numFiles (i + 1)
                  \<lparr> downloadTimes = downloadTimes st @ [d],
                    downloadSpeeds = downloadSpeeds st @ [speed_MBps fileSize d],
                    get_requests = get_requests st @ [(bucketName, key)] \<rparr>)
      else Inr st)"
  by pat_completeness auto
termination
  by (relation "measure (\<lambda>(B, bucketName, fileSize, numFiles, i, st). nat (numFiles + 1 - i))") auto

declare download_loop_README.simps [simp del]

definition downloadFiles_README ::
  "backend \<Rightarrow> string \<Rightarrow> int \<Rightarrow> int \<Rightarrow> abort + (duration list \<times> float64 list)" where
  "downloadFiles_README B bucketName fileSize numFiles =
     (case download_loop_README B bucketName fileSize numFiles 1
             \<lparr> downloadTimes = [], downloadSpeeds = [], get_requests = [] \<rparr> of
        Inl a \<Rightarrow> Inl a
      | Inr st \<Rightarrow> Inr (downloadTimes st, downloadSpeeds st))"

text \<open>
  The object store behind the client, as S3 defines it: a successful put binds the key of its
  bucket to the data sent, replacing what was there.
\<close>

definition object_store ::
  "(string \<times> string \<times> byte list) list \<Rightarrow> (string \<times> string \<rightharpoonup> byte list) \<Rightarrow> (string \<times> string \<rightharpoonup> byte list)" where
  "object_store reqs m = foldl (\<lambda>m (bucket, key, data). m((bucket, key) \<mapsto> data)) m reqs"


section \<open>The driver: \<^verbatim>\<open>main\<close>\<close>

record flags =
  endpoint :: string
  accessKey :: string
  secretKey :: string
  bucketName :: string
  fileSizeMb :: int
  trials :: int

text \<open>
  The process environment: the two credential variables (\<^verbatim>\<open>os.Getenv\<close> gives the empty
  string for an unset one), whether \<^verbatim>\<open>minio.New\<close> returns an error, and the storage backend.
\<close>

record environment =
  S3_ACCESS_KEY :: string
  S3_SECRET_KEY :: string
  client_fails :: bool
  storage :: backend

record Report =
  Avg_DownloadTime :: duration
  Avg_UploadTime :: duration
  P90_UploadTime :: duration
  P90_UploadSpeed :: float64
  P90_DownloadTime :: duration
  P90_DownloadSpeed :: float64

definition int64_wrap :: "int \<Rightarrow> int" where
  "int64_wrap n = sint (word_of_int n :: 64 word)"

text \<open>A panic in a statistic ends the process; otherwise the value goes into the report.\<close>

definition or_panic :: "panic + 'a \<Rightarrow> ('a \<Rightarrow> abort + 'b) \<Rightarrow> abort + 'b" where
  "or_panic r k = (case r of Inl p \<Rightarrow> Inl (RuntimePanic p) | Inr v \<Rightarrow> k v)"

definition main :: "flags \<Rightarrow> environment \<Rightarrow> abort + Report" where
  "main f env =
     (let accessKey' = (if accessKey f = [] then S3_ACCESS_KEY env else accessKey f);
          secretKey' = (if secretKey f = [] then S3_SECRET_KEY env else secretKey f)
      in if endpoint f = [] \<or> accessKey' = [] \<or> secretKey' = [] \<or> bucketName f = []
         then Inl MissingParameter
         else
           let fileSize = int64_wrap (fileSizeMb f * (1024 * 1024))
           in if client_fails env then Inl ClientError
              else
                case uploadFiles (storage env) (bucketName f) fileSize (trials f) of
                  Inl a \<Rightarrow> Inl a
                | Inr (upTimes, upSpeeds) \<Rightarrow>
                    (case downloadFiles (storage env) (bucketName f) fileSize (trials f) of
                       Inl a \<Rightarrow> Inl a
                     | Inr (downTimes, downSpeeds) \<Rightarrow>
                         or_panic (calculateAverage upTimes) (\<lambda>avgUp.
                         or_panic (calculateAverage downTimes) (\<lambda>avgDown.
                         or_panic (calculateP90 less_Duration upTimes) (\<lambda>(p90UpTime, upTimes').
                         or_panic (calculateP90 less_float64 upSpeeds) (\<lambda>(p90UpSpeed, upSpeeds').
                         or_panic (calculateP90 less_Duration downTimes) (\<lambda>(p90DownTime, downTimes').
                         or_panic (calculateP90 less_float64 downSpeeds) (\<lambda>(p90DownSpeed, downSpeeds').
                           Inr \<lparr> Avg_DownloadTime = avgDown,
                                 Avg_UploadTime = avgUp,
                                 P90_UploadTime = p90UpTime,
                                 P90_UploadSpeed = p90UpSpeed,
                                 P90_DownloadTime = p90DownTime,
                                 P90_DownloadSpeed = p90DownSpeed \<rparr>))))))))"


section \<open>Auxiliary notions for the proofs\<close>

text \<open>
  Insertion from the right end of a sorted prefix, on the reversed prefix: what one run of the
  inner loop of the insertion sort computes.
\<close>

fun insert_desc :: "('a \<Rightarrow> 'k::linorder) \<Rightarrow> 'a \<Rightarrow> 'a list \<Rightarrow> 'a list" where
  "insert_desc key x [] = [x]"
| "insert_desc key x (p # ps) = (if key x < key p then p # insert_desc key x ps else x # p # ps)"

text \<open>An order-embedding of the float64 values other than NaN into a linear order.\<close>

definition float64_key :: "float64 \<Rightarrow> int \<times> rat" where
  "float64_key x =
     (case x of NaN \<Rightarrow> (2, 0) | NegInf \<Rightarrow> (- 1, 0) | Finite r \<Rightarrow> (0, r) | PosInf \<Rightarrow> (1, 0))"

text \<open>The decimal number that a string of digits denotes.\<close>

definition digits_value :: "string \<Rightarrow> nat" where
  "digits_value s = foldl (\<lambda>a c. 10 * a + (of_char c - 48)) 0 s"

text \<open>
  Names for the request of trial \<open>i\<close> and for what the environment answers to it: the key
  and the buffer as the two loops build them, and the outcome of the one call each loop makes
  in that trial.
\<close>

definition trial_key :: "int \<Rightarrow> string" where
  "trial_key i = ''file-'' @ Sprintf_d i @ ''.dat''"

definition trial_data :: "backend \<Rightarrow> int \<Rightarrow> int \<Rightarrow> byte list" where
  "trial_data B fileSize i = map (rand_Read B i) [0..<nat fileSize]"

definition put_of :: "backend \<Rightarrow> string \<Rightarrow> int \<Rightarrow> int \<Rightarrow> put_outcome" where
  "put_of B bucket fileSize i = PutObject B i bucket (trial_key i) (trial_data B fileSize i)"

definition get_of :: "backend \<Rightarrow> string \<Rightarrow> int \<Rightarrow> get_outcome" where
  "get_of B bucket i = GetObject B i bucket (trial_key i)"

definition stat_of :: "backend \<Rightarrow> string \<Rightarrow> int \<Rightarrow> stat_outcome" where
  "stat_of B bucket i = GetObject_Stat B i bucket (trial_key i)"

fun stat_elapsed :: "stat_outcome \<Rightarrow> duration" where
  "stat_elapsed (StatOk n d) = d"
| "stat_elapsed _ = 0"

fun put_elapsed :: "put_outcome \<Rightarrow> duration" where
  "put_elapsed (PutOk d) = d"
| "put_elapsed PutError = 0"

fun get_elapsed :: "get_outcome \<Rightarrow> duration" where
  "get_elapsed (GetOk n d) = d"
| "get_elapsed _ = 0"

text \<open>
  Three environments for the examples, each with 8 GiB of memory to give. \<open>steady_backend\<close>
  answers every request: upload trial \<open>i\<close> takes \<open>10 i\<close> ms, download trial \<open>i\<close> takes
  \<open>5 i\<close> ms and delivers 4 bytes. \<open>instant_backend\<close> answers every request within a clock
  tick: the elapsed time reads 0. In \<open>short_read_backend\<close> the object of trial 2 has 3 bytes
  where the others have 4, and every transfer takes 5 ms.
\<close>

definition steady_backend :: backend where
  "steady_backend =
     \<lparr> PutObject = (\<lambda>i bucket key data. PutOk (word_of_int (10000000 * i))),
       GetObject = (\<lambda>i bucket key. GetOk 4 (word_of_int (5000000 * i))),
       GetObject_Stat = (\<lambda>i bucket key. StatOk 4 (word_of_int (5000000 * i))),
       rand_Read = (\<lambda>i k. word_of_nat k),
       available_memory = 8589934592 \<rparr>"

definition instant_backend :: backend where
  "instant_backend =
     \<lparr> PutObject = (\<lambda>i bucket key data. PutOk 0),
       GetObject = (\<lambda>i bucket key. GetOk 1 0),
       GetObject_Stat = (\<lambda>i bucket key. StatOk 1 0),
       rand_Read = (\<lambda>i k. 0),
       available_memory = 8589934592 \<rparr>"

definition short_read_backend :: backend where
  "short_read_backend =
     \<lparr> PutObject = (\<lambda>i bucket key data. PutOk 10000000),
       GetObject = (\<lambda>i bucket key. GetOk (if i = 2 then 3 else 4) 5000000),
       GetObject_Stat = (\<lambda>i bucket key. StatOk (if i = 2 then 3 else 4) 5000000),
       rand_Read = (\<lambda>i k. 0),
       available_memory = 8589934592 \<rparr>"


definition steady_environment :: environment where
  "steady_environment =
     \<lparr> S3_ACCESS_KEY = [], S3_SECRET_KEY = [], client_fails = False, storage = steady_backend \<rparr>"


section \<open>Signed 64-bit arithmetic\<close>

lemma foldl_add_word: "foldl (+) (a::duration) xs = a + word_of_int (\<Sum>t\<leftarrow>xs. sint t)"
  by (induction xs arbitrary: a) (simp_all add: algebra_simps)

lemma sint_in_range:
  assumes "- (2^63) \<le> k" "k < 2^63"
  shows "sint (word_of_int k :: duration) = k"
  using assms by (simp add: sint_sbintrunc' signed_take_bit_int_eq_self)

lemma abs_sdiv_pos:
  fixes S n :: int
  assumes "0 < n"
  shows "\<bar>S sdiv n\<bar> = \<bar>S\<bar> div n"
proof -
  have "0 \<le> \<bar>S\<bar> div n" using assms by (simp add: pos_imp_zdiv_nonneg_iff)
  then show ?thesis
    using assms by (simp add: signed_divide_int_def abs_mult sgn_if)
qed

lemma sdiv_bound:
  fixes S n :: int
  assumes "0 < n" "- (2^63) \<le> S" "S < 2^63"
  shows "- (2^63) \<le> S sdiv n \<and> S sdiv n < 2^63"
proof (cases "n = 1")
  case True
  then have "S sdiv n = S" by simp
  with assms(2,3) show ?thesis by simp
next
  case False
  with assms have n2: "2 \<le> n" by simp
  have "\<bar>S sdiv n\<bar> = \<bar>S\<bar> div n"
    using assms by (simp add: abs_sdiv_pos)
  also have "\<dots> \<le> \<bar>S\<bar> div 2"
    using n2 by (simp add: zdiv_mono2)
  also have "\<dots> \<le> 2^63 div 2"
    using assms(2,3) by (intro zdiv_mono1) simp_all
  also have "\<dots> < (2::int)^63" by simp
  finally have "\<bar>S sdiv n\<bar> < 2^63" .
  then show ?thesis by linarith
qed

lemma calculateAverage_in_range:
  assumes "ts \<noteq> []" "length ts < 2^63"
    "- (2^63) \<le> (\<Sum>t\<leftarrow>ts. sint t)" "(\<Sum>t\<leftarrow>ts. sint t) < 2^63"
  shows "\<exists>r. calculateAverage ts = Inr r \<and> sint r = (\<Sum>t\<leftarrow>ts. sint t) sdiv int (length ts)"
proof -
  let ?S = "\<Sum>t\<leftarrow>ts. sint t"
  let ?n = "int (length ts)"
  have npos: "0 < ?n" using assms(1) by simp
  have nlt: "?n < 2^63" using assms(2) by simp
  have tot: "sint (foldl (+) (0::duration) ts) = ?S"
    using assms(3,4) by (simp add: foldl_add_word sint_in_range)
  have cnt: "sint (word_of_nat (length ts) :: duration) = ?n"
    using sint_in_range [of ?n] npos nlt by simp
  have nz: "(word_of_nat (length ts) :: duration) \<noteq> 0"
    using cnt npos by auto
  have "sint (word_of_int (?S sdiv ?n) :: duration) = ?S sdiv ?n"
    using sdiv_bound [OF npos assms(3,4)] by (simp add: sint_in_range)
  then show ?thesis
    using nz tot cnt by (simp add: calculateAverage_def int64_div_def)
qed

section \<open>The index \<^verbatim>\<open>int(0.9 * float64(len))\<close>\<close>

lemma bit_length_bounds: "0 < n \<Longrightarrow> 2 ^ (bit_length n - 1) \<le> n \<and> n < 2 ^ bit_length n"
proof (induction n rule: bit_length.induct)
  case (1 n)
  show ?case
  proof (cases "n div 2 = 0")
    case True
    with "1.prems" have "n = 1" by (simp add: div_eq_0_iff)
    then show ?thesis by (simp add: bit_length.simps)
  next
    case False
    then have pos: "0 < n div 2" by simp
    from "1.IH" [OF _ pos] "1.prems"
    have ih: "2 ^ (bit_length (n div 2) - 1) \<le> n div 2" "n div 2 < 2 ^ bit_length (n div 2)"
      by auto
    have bl: "bit_length n = Suc (bit_length (n div 2))"
      using "1.prems" by (subst bit_length.simps) simp
    have blpos: "0 < bit_length (n div 2)"
      using pos by (subst bit_length.simps) simp
    then obtain b where b: "bit_length (n div 2) = Suc b"
      by (cases "bit_length (n div 2)") simp_all
    from ih b have lo: "2 * 2 ^ b \<le> n" and hi: "n < 2 * (2 * 2 ^ b)"
      by simp_all
    show ?thesis using lo hi by (simp add: bl b)
  qed
qed

lemma round_to_float64_exact: "m < 2 ^ 53 \<Longrightarrow> round_to_float64 m = m"
  by (simp add: round_to_float64_def)

lemma round_to_float64_bounds:
  assumes big: "2 ^ 53 \<le> m"
  defines "s \<equiv> bit_length m - 53"
  shows "1 \<le> s" and "2 ^ 52 * 2 ^ s \<le> m"
    and "(m div 2 ^ s) * 2 ^ s \<le> round_to_float64 m"
    and "2 * round_to_float64 m \<le> 2 * m + 2 ^ s"
proof -
  have mpos: "0 < m" using big by (simp add: order_less_le_trans [of 0 "2 ^ 53"])
  from bit_length_bounds [OF mpos]
  have lo: "2 ^ (bit_length m - 1) \<le> m" and hi: "m < 2 ^ bit_length m" by simp_all
  have "(2::nat) ^ 53 < 2 ^ bit_length m" using big hi by linarith
  then have bl: "53 < bit_length m" by (simp only: power_strict_increasing_iff)
  then show s1: "1 \<le> s" by (simp add: s_def)
  have "bit_length m - 1 = 52 + s" using bl by (simp add: s_def)
  with lo show "2 ^ 52 * 2 ^ s \<le> m" by (simp add: power_add)
  define q where "q = m div 2 ^ s"
  define r where "r = m mod 2 ^ s"
  define half :: nat where "half = 2 ^ (s - 1)"
  have two_half: "(2::nat) ^ s = 2 * half"
    using s1 by (cases s) (simp_all add: half_def)
  have m_eq: "m = q * 2 ^ s + r" unfolding q_def r_def by (rule div_mult_mod_eq [symmetric])
  have R: "round_to_float64 m = (if half < r \<or> (r = half \<and> odd q) then q + 1 else q) * 2 ^ s"
    using big by (simp add: round_to_float64_def Let_def s_def q_def r_def half_def)
  show "(m div 2 ^ s) * 2 ^ s \<le> round_to_float64 m"
    unfolding R q_def [symmetric] by simp
  show "2 * round_to_float64 m \<le> 2 * m + 2 ^ s"
  proof (cases "half < r \<or> (r = half \<and> odd q)")
    case True
    then have hr: "half \<le> r" by auto
    from True have "round_to_float64 m = q * 2 ^ s + 2 ^ s" by (simp add: R)
    then show ?thesis using m_eq hr two_half by linarith
  next
    case False
    then have "round_to_float64 m = q * 2 ^ s" by (simp add: R)
    then show ?thesis using m_eq by linarith
  qed
qed

lemma p90Index_eq:
  assumes n: "len < 2 ^ 48"
  shows "p90Index len = 9 * len div 10"
proof -
  define m where "m = 8106479329266893 * len"
  define k where "k = 9 * len div 10"
  define R where "R = round_to_float64 m"
  have len53: "len < 2 ^ 53"
    using n by (rule less_trans) simp
  have idx: "p90Index len = R div 2 ^ 53"
    using len53 by (simp add: p90Index_def R_def m_def round_to_float64_exact)
  have ten_m: "10 * m = 9 * len * 2 ^ 53 + 2 * len"
    by (simp add: m_def)
  have k_lo: "10 * k \<le> 9 * len" and k_hi: "9 * len \<le> 10 * k + 9"
    unfolding k_def by presburger+
  have lenb: "12 * len < 2 ^ 53"
    using n by simp
  have lower_m: "k * 2 ^ 53 \<le> m"
  proof -
    have "10 * (k * 2 ^ 53) \<le> 9 * len * 2 ^ 53"
      using k_lo by simp
    then show ?thesis using ten_m by linarith
  qed
  have upper_m: "10 * m + 10 * len < 10 * ((k + 1) * 2 ^ 53)"
  proof -
    have "9 * len * 2 ^ 53 \<le> (10 * k + 9) * 2 ^ 53"
      using k_hi by (simp only: mult_le_mono1)
    then show ?thesis using ten_m lenb by (simp add: algebra_simps)
  qed
  have "k * 2 ^ 53 \<le> R \<and> R < (k + 1) * 2 ^ 53"
  proof (cases "m < 2 ^ 53")
    case True
    then have "R = m" by (simp add: R_def round_to_float64_exact)
    then show ?thesis using lower_m upper_m by linarith
  next
    case False
    then have big: "2 ^ 53 \<le> m" by simp
    define s where "s = bit_length m - 53"
    note b = round_to_float64_bounds [OF big, folded s_def R_def]
    have "m < 2 ^ 53 * len"
    proof -
      have "0 < len" using big by (cases len) (simp_all add: m_def)
      then show ?thesis by (simp add: m_def)
    qed
    with b(2) have "(2::nat) ^ 52 * 2 ^ s < 2 ^ 53 * len" by linarith
    then have s_len: "(2::nat) ^ s < 2 * len" by simp
    with n have "(2::nat) ^ s < 2 ^ 49" by simp
    then have s49: "s < 49" by (simp only: power_strict_increasing_iff)
    have "2 ^ 53 = (2::nat) ^ (53 - s) * 2 ^ s"
      using s49 by (simp add: power_add [symmetric])
    then have "k * 2 ^ (53 - s) * 2 ^ s \<le> m"
      using lower_m by (simp add: mult.assoc)
    then have "k * 2 ^ (53 - s) \<le> m div 2 ^ s"
      by (simp add: less_eq_div_iff_mult_less_eq)
    then have "k * 2 ^ (53 - s) * 2 ^ s \<le> (m div 2 ^ s) * 2 ^ s"
      by (simp only: mult_le_mono1)
    with \<open>2 ^ 53 = (2::nat) ^ (53 - s) * 2 ^ s\<close> b(3) have lo: "k * 2 ^ 53 \<le> R"
      by (simp add: mult.assoc)
    have "2 * R < 2 * m + 2 * len" using b(4) s_len by linarith
    then have "R < m + len" by simp
    with upper_m have hi: "R < (k + 1) * 2 ^ 53" by linarith
    from lo hi show ?thesis ..
  qed
  then have "R div 2 ^ 53 = k"
    by (intro div_nat_eqI) (simp_all add: mult.commute)
  then show ?thesis by (simp add: idx k_def)
qed

section \<open>The insertion sort of \<^verbatim>\<open>sort.Slice\<close>\<close>

lemma float64_less_key:
  "x \<noteq> NaN \<Longrightarrow> y \<noteq> NaN \<Longrightarrow> float64_less x y \<longleftrightarrow> float64_key x < float64_key y"
  by (cases x; cases y) (simp_all add: float64_key_def)

lemma float64_key_inj: "x \<noteq> NaN \<Longrightarrow> y \<noteq> NaN \<Longrightarrow> float64_key x = float64_key y \<Longrightarrow> x = y"
  by (cases x; cases y) (simp_all add: float64_key_def)

lemma insert_desc_mset: "mset (insert_desc key x ps) = add_mset x (mset ps)"
  by (induction ps) simp_all

lemma insert_desc_set: "set (insert_desc key x ps) = insert x (set ps)"
  by (induction ps) auto

lemma insert_desc_length: "length (insert_desc key x ps) = Suc (length ps)"
  by (induction ps) simp_all

lemma insert_desc_sorted:
  "sorted_wrt (\<lambda>a b. key b \<le> key a) ps \<Longrightarrow> sorted_wrt (\<lambda>a b. key b \<le> key a) (insert_desc key x ps)"
  by (induction ps) (auto simp: insert_desc_set)

lemma inner_insert:
  fixes key :: "'a \<Rightarrow> 'k::linorder"
  assumes "\<forall>a\<in>S. \<forall>b\<in>S. lt a b = Inr (key a < key b)"
    and "set rps \<subseteq> S" "x \<in> S"
  shows "insertionSort_inner lt (rev rps @ x # qs) (length rps) = Inr (rev (insert_desc key x rps) @ qs)"
  using assms(2)
proof (induction rps arbitrary: qs)
  case Nil
  then show ?case by simp
next
  case (Cons p rps)
  let ?data = "rev (p # rps) @ x # qs"
  have at_j: "?data ! length rps = p"
    by (simp add: nth_append)
  have at_Sj: "?data ! Suc (length rps) = x"
    by (simp add: nth_append)
  have cmp: "lt x p = Inr (key x < key p)"
    using assms(1,3) Cons.prems by simp
  show ?case
  proof (cases "key x < key p")
    case True
    have swap: "?data[Suc (length rps) := p, length rps := x] = rev rps @ x # p # qs"
      by (simp add: list_update_append)
    from Cons.IH [of "p # qs"] Cons.prems
    have "insertionSort_inner lt (rev rps @ x # p # qs) (length rps)
            = Inr (rev (insert_desc key x rps) @ p # qs)" by simp
    with True show ?thesis
      using at_j at_Sj cmp swap by simp
  next
    case False
    then show ?thesis using at_j at_Sj cmp by simp
  qed
qed

lemma outer_sorted:
  fixes key :: "'a \<Rightarrow> 'k::linorder"
  assumes "\<forall>a\<in>S. \<forall>b\<in>S. lt a b = Inr (key a < key b)"
  shows "set ps \<subseteq> S \<Longrightarrow> set qs \<subseteq> S \<Longrightarrow> sorted_wrt (\<lambda>a b. key a \<le> key b) ps \<Longrightarrow>
    \<exists>ys. insertionSort_func lt (ps @ qs) (length ps) (length ps + length qs) = Inr ys
       \<and> mset ys = mset (ps @ qs) \<and> sorted_wrt (\<lambda>a b. key a \<le> key b) ys"
proof (induction qs arbitrary: ps)
  case Nil
  then show ?case by (simp add: insertionSort_func.simps)
next
  case (Cons x qs)
  let ?ps' = "rev (insert_desc key x (rev ps))"
  have inner: "insertionSort_inner lt (ps @ x # qs) (length ps) = Inr (?ps' @ qs)"
    using inner_insert [OF assms, of "rev ps" x qs] Cons.prems by simp
  have len: "length ?ps' = Suc (length ps)" by (simp add: insert_desc_length)
  have sub: "set ?ps' \<subseteq> S" using Cons.prems by (simp add: insert_desc_set)
  have srt: "sorted_wrt (\<lambda>a b. key a \<le> key b) ?ps'"
    using Cons.prems(3) insert_desc_sorted [of key "rev ps" x]
    by (simp add: sorted_wrt_rev)
  from Cons.IH [OF sub _ srt] Cons.prems(2)
  obtain ys where ys: "insertionSort_func lt (?ps' @ qs) (Suc (length ps)) (Suc (length ps) + length qs) = Inr ys"
    "mset ys = mset (?ps' @ qs)" "sorted_wrt (\<lambda>a b. key a \<le> key b) ys"
    by (auto simp: insert_desc_length)
  have "insertionSort_func lt (ps @ x # qs) (length ps) (length ps + length (x # qs)) = Inr ys"
    using ys(1) by (subst insertionSort_func.simps) (simp add: inner)
  moreover have "mset ys = mset (ps @ x # qs)"
    using ys(2) by (simp add: insert_desc_mset)
  ultimately show ?case using ys(3) by blast
qed

lemma sort_Slice_sorted:
  fixes key :: "'a \<Rightarrow> 'k::linorder"
  assumes "\<forall>a\<in>S. \<forall>b\<in>S. lt a b = Inr (key a < key b)" "set xs \<subseteq> S"
  shows "\<exists>ys. sort_Slice lt xs = Inr ys \<and> mset ys = mset xs \<and> sorted_wrt (\<lambda>a b. key a \<le> key b) ys"
proof (cases xs)
  case Nil
  then show ?thesis by (simp add: sort_Slice_def insertionSort_func.simps)
next
  case (Cons x qs)
  from outer_sorted [OF assms(1), of "[x]" qs] assms(2) Cons
  show ?thesis by (simp add: sort_Slice_def)
qed

lemma sorted_key_unique:
  fixes key :: "'a \<Rightarrow> 'k::linorder"
  assumes "mset ys = mset zs" "inj_on key (set ys)"
    "sorted_wrt (\<lambda>a b. key a \<le> key b) ys" "sorted_wrt (\<lambda>a b. key a \<le> key b) zs"
  shows "ys = zs"
proof -
  have "sorted (map key ys)" "sorted (map key zs)"
    using assms(3,4) by (simp_all add: sorted_map)
  moreover have "mset (map key ys) = mset (map key zs)"
    using assms(1) by simp
  ultimately have "map key ys = map key zs"
    by (metis properties_for_sort)
  moreover have "set zs = set ys" using assms(1) by (metis set_mset_mset)
  ultimately show ?thesis using assms(2) by (simp add: inj_on_map_eq_map)
qed

section \<open>Claims about the average\<close>

text \<open>
  C5, as stated: for every non-empty sequence of durations the average is the sum divided by
  the count. The running total is an \<^verbatim>\<open>int64\<close> and wraps around: for the two durations
  \<open>2^63 - 1\<close> ns and \<open>1\<close> ns the code returns \<open>- 2^62\<close> ns, while the sum divided by the
  count is \<open>2^62\<close> ns.
\<close>

theorem calculateAverage_wraps_counterexample:
  "calculateAverage [9223372036854775807, 1] = Inr (- 4611686018427387904)
   \<and> (sint (9223372036854775807 :: duration) + sint (1 :: duration)) sdiv 2 = 4611686018427387904
   \<and> sint (- 4611686018427387904 :: duration) = - 4611686018427387904"
  by (simp add: calculateAverage_def int64_div_def)

text \<open>
  C5, amended: for every non-empty sequence of durations whose exact sum fits the signed 64-bit
  range, \<^verbatim>\<open>calculateAverage\<close> returns the sum divided by the count, truncated towards zero
  (\<open>sdiv\<close>); the result is exact when the count divides the sum, and otherwise differs from
  the exact quotient by less than one nanosecond, towards zero.
\<close>

theorem calculateAverage_sum_div_count:
  assumes "ts \<noteq> []" and "length ts < 2 ^ 63"
    and "- (2 ^ 63) \<le> (\<Sum>t\<leftarrow>ts. sint t)" and "(\<Sum>t\<leftarrow>ts. sint t) < 2 ^ 63"
  shows "\<exists>r. calculateAverage ts = Inr r
           \<and> sint r = (\<Sum>t\<leftarrow>ts. sint t) sdiv int (length ts)
           \<and> \<bar>sint r\<bar> = \<bar>\<Sum>t\<leftarrow>ts. sint t\<bar> div int (length ts)
           \<and> (int (length ts) dvd (\<Sum>t\<leftarrow>ts. sint t) \<longrightarrow>
                sint r * int (length ts) = (\<Sum>t\<leftarrow>ts. sint t))"
proof -
  let ?S = "\<Sum>t\<leftarrow>ts. sint t"
  let ?n = "int (length ts)"
  have npos: "0 < ?n" using assms(1) by simp
  from calculateAverage_in_range [OF assms]
  obtain r where r: "calculateAverage ts = Inr r" "sint r = ?S sdiv ?n" by blast
  have q: "\<bar>?S sdiv ?n\<bar> = \<bar>?S\<bar> div ?n" using npos by (rule abs_sdiv_pos)
  have sgn: "?S sdiv ?n = sgn ?S * (\<bar>?S\<bar> div ?n)"
    using npos by (simp add: signed_divide_int_def)
  have exact: "?S sdiv ?n * ?n = ?S" if "?n dvd ?S"
  proof -
    from that have "?n dvd \<bar>?S\<bar>" by simp
    then have "\<bar>?S\<bar> div ?n * ?n = \<bar>?S\<bar>" by simp
    then have "sgn ?S * (\<bar>?S\<bar> div ?n) * ?n = sgn ?S * \<bar>?S\<bar>" by (simp add: mult.assoc)
    then show ?thesis by (simp add: sgn mult_sgn_abs)
  qed
  show ?thesis
    using r q exact by auto
qed

text \<open>
  The scenario of the specification: three trials of 10 ms, 20 ms and 30 ms average to 20 ms.
\<close>

theorem calculateAverage_sum_div_count_witness:
  "\<exists>r. calculateAverage [10000000, 20000000, 30000000] = Inr r \<and> sint r = 20000000"
  using calculateAverage_sum_div_count [of "[10000000, 20000000, 30000000]"]
  by auto

section \<open>What \<^verbatim>\<open>calculateP90\<close> computes on an ordered slice\<close>

lemma p90Index_less: "0 < len \<Longrightarrow> 9 * len div 10 < (len::nat)"
  by presburger

lemma calculateP90_sort_key:
  fixes key :: "'a \<Rightarrow> 'k::linorder"
  assumes cmp: "\<forall>a\<in>S. \<forall>b\<in>S. lt a b = Inr (key a < key b)"
    and sub: "set values \<subseteq> S"
    and inj: "inj_on key S"
    and ne: "values \<noteq> []"
    and len: "length values < 2 ^ 48"
  shows "calculateP90 lt values
           = Inr (sort_key key values ! (9 * length values div 10), sort_key key values)"
proof -
  from sort_Slice_sorted [OF cmp sub]
  obtain ys where ys: "sort_Slice lt values = Inr ys" "mset ys = mset values"
    "sorted_wrt (\<lambda>a b. key a \<le> key b) ys" by blast
  have "set ys = set values" using ys(2) by (metis set_mset_mset)
  with sub inj have inj_ys: "inj_on key (set ys)" by (metis inj_on_subset)
  have "sorted_wrt (\<lambda>a b. key a \<le> key b) (sort_key key values)"
    using sorted_sort_key [of key "values"] by (simp add: sorted_map)
  with ys(2,3) inj_ys have eq: "ys = sort_key key values"
    by (intro sorted_key_unique [of ys "sort_key key values" key]) simp_all
  have l: "length ys = length values" using ys(2) by (metis size_mset)
  have "p90Index (length ys) = 9 * length values div 10"
    using len by (simp add: l p90Index_eq)
  moreover have "9 * length values div 10 < length ys"
    using ne by (simp add: l p90Index_less)
  ultimately show ?thesis
    using ys(1) eq by (simp add: calculateP90_def)
qed

lemma calculateP90_Duration:
  assumes "ds \<noteq> []" "length ds < 2 ^ 48"
  shows "calculateP90 less_Duration ds
           = Inr (sort_key sint ds ! (9 * length ds div 10), sort_key sint ds)"
proof (rule calculateP90_sort_key [where S = UNIV])
  show "\<forall>a\<in>UNIV. \<forall>b\<in>UNIV. less_Duration a b = Inr (sint a < sint b)"
    by (simp add: less_Duration_def word_sless_alt)
  show "inj_on (sint :: duration \<Rightarrow> int) UNIV"
    by (rule inj_onI) (rule signed_word_eqI)
qed (use assms in simp_all)

lemma calculateP90_float64:
  assumes "fs \<noteq> []" "length fs < 2 ^ 48" "NaN \<notin> set fs"
  shows "calculateP90 less_float64 fs
           = Inr (sort_key float64_key fs ! (9 * length fs div 10), sort_key float64_key fs)"
proof (rule calculateP90_sort_key [where S = "{x. x \<noteq> NaN}"])
  show "\<forall>a\<in>{x. x \<noteq> NaN}. \<forall>b\<in>{x. x \<noteq> NaN}. less_float64 a b = Inr (float64_key a < float64_key b)"
    by (simp add: less_float64_def float64_less_key)
  show "inj_on float64_key {x. x \<noteq> NaN}"
    by (rule inj_onI) (simp add: float64_key_inj)
  show "set fs \<subseteq> {x. x \<noteq> NaN}" using assms(3) by auto
qed (use assms in simp_all)

lemma sort_key_perm_inj:
  fixes key :: "'a \<Rightarrow> 'k::linorder"
  assumes "mset xs = mset ys" "inj_on key (set xs)"
  shows "sort_key key xs = sort_key key ys"
proof (rule sorted_key_unique [where key = key])
  show "mset (sort_key key xs) = mset (sort_key key ys)" using assms(1) by simp
  show "inj_on key (set (sort_key key xs))" using assms(2) by simp
  show "sorted_wrt (\<lambda>a b. key a \<le> key b) (sort_key key xs)"
    using sorted_sort_key [of key xs] by (simp add: sorted_map)
  show "sorted_wrt (\<lambda>a b. key a \<le> key b) (sort_key key ys)"
    using sorted_sort_key [of key ys] by (simp add: sorted_map)
qed

lemma sort_key_fixed_iff: "sort_key key xs = xs \<longleftrightarrow> sorted (map key xs)"
  by (metis sort_key_id_if_sorted sorted_sort_key)

lemma sort_key_last_max:
  fixes key :: "'a \<Rightarrow> 'k::linorder"
  assumes "xs \<noteq> []" "x \<in> set xs"
  shows "key x \<le> key (last (sort_key key xs))"
proof -
  let ?ys = "sort_key key xs"
  have ne: "?ys \<noteq> []" using assms(1) by (metis length_sort length_0_conv)
  have "x \<in> set ?ys" using assms(2) by simp
  then obtain i where i: "i < length ?ys" "?ys ! i = x" by (metis in_set_conv_nth)
  have "sorted (map key ?ys)" by (rule sorted_sort_key)
  then have "map key ?ys ! i \<le> map key ?ys ! (length ?ys - 1)"
    using i(1) by (intro sorted_nth_mono) simp_all
  then show ?thesis using i ne by (simp add: last_conv_nth)
qed

lemma p90_consequences:
  fixes key :: "'a \<Rightarrow> 'k::linorder"
  assumes "xs \<noteq> []"
  defines "v \<equiv> sort_key key xs ! (9 * length xs div 10)"
  shows "v \<in> set xs"
    and "length xs = 10 \<Longrightarrow> v = last (sort_key key xs) \<and> (\<forall>x\<in>set xs. key x \<le> key v)"
    and "length xs = 1 \<Longrightarrow> xs = [v]"
proof -
  let ?ys = "sort_key key xs"
  have idx: "9 * length xs div 10 < length ?ys"
    using assms(1) by (simp add: p90Index_less)
  then have "v \<in> set ?ys" unfolding v_def by (rule nth_mem)
  then show "v \<in> set xs" by simp
  show "v = last ?ys \<and> (\<forall>x\<in>set xs. key x \<le> key v)" if "length xs = 10"
  proof -
    have ne: "?ys \<noteq> []" using assms(1) by (metis length_sort length_0_conv)
    have "v = last ?ys" using that ne by (simp add: v_def last_conv_nth)
    then show ?thesis using sort_key_last_max [OF assms(1), where key = key] by simp
  qed
  show "xs = [v]" if "length xs = 1"
  proof -
    from that obtain x where x: "xs = [x]" by (cases xs) simp_all
    then show ?thesis by (simp add: v_def)
  qed
qed

lemma calculateP90_single: "calculateP90 lt [v] = Inr (v, [v])"
  by (simp add: calculateP90_def sort_Slice_def insertionSort_func.simps p90Index_eq)

lemma sorted_Duration_iff:
  "sorted_wrt (\<lambda>x y. sint x \<le> sint y) (ds :: duration list) \<longleftrightarrow> sorted (map sint ds)"
  by (simp add: sorted_map)

lemma sorted_float64_iff:
  assumes "NaN \<notin> set fs"
  shows "sorted_wrt (\<lambda>x y. \<not> float64_less y x) fs \<longleftrightarrow> sorted (map float64_key fs)"
proof -
  have "sorted_wrt (\<lambda>x y. \<not> float64_less y x) fs
          \<longleftrightarrow> sorted_wrt (\<lambda>x y. float64_key x \<le> float64_key y) fs"
  proof
    assume "sorted_wrt (\<lambda>x y. \<not> float64_less y x) fs"
    then show "sorted_wrt (\<lambda>x y. float64_key x \<le> float64_key y) fs"
    proof (rule sorted_wrt_mono_rel [rotated])
      fix x y assume "x \<in> set fs" "y \<in> set fs" "\<not> float64_less y x"
      with assms have "x \<noteq> NaN" "y \<noteq> NaN" by auto
      with \<open>\<not> float64_less y x\<close> show "float64_key x \<le> float64_key y"
        by (simp add: float64_less_key not_less)
    qed
  next
    assume "sorted_wrt (\<lambda>x y. float64_key x \<le> float64_key y) fs"
    then show "sorted_wrt (\<lambda>x y. \<not> float64_less y x) fs"
    proof (rule sorted_wrt_mono_rel [rotated])
      fix x y assume "x \<in> set fs" "y \<in> set fs" "float64_key x \<le> float64_key y"
      with assms have "x \<noteq> NaN" "y \<noteq> NaN" by auto
      with \<open>float64_key x \<le> float64_key y\<close> show "\<not> float64_less y x"
        by (simp add: float64_less_key not_less)
    qed
  qed
  then show ?thesis by (simp add: sorted_map)
qed


section \<open>Claims about the 90th percentile\<close>

text \<open>
  C1, as stated: for every non-empty sequence, \<^verbatim>\<open>calculateP90\<close> returns the element at index
  \<open>floor(0.9 * count)\<close> of the sequence sorted ascending. On the three float64 values
  \<open>2, NaN, 1\<close> no comparison with NaN is true, the sort moves nothing, and the code returns
  \<open>1\<close>, the smallest value, from index 2 of a slice that is not in ascending order.
\<close>

theorem calculateP90_NaN_counterexample:
  "calculateP90 less_float64 [Finite 2, NaN, Finite 1] = Inr (Finite 1, [Finite 2, NaN, Finite 1])
   \<and> float64_less (Finite 1) (Finite 2)"
  by (simp add: calculateP90_def sort_Slice_def insertionSort_func.simps less_float64_def
      p90Index_eq)

text \<open>
  C1, amended: for every non-empty sequence of durations, and for every non-empty sequence of
  float64 values none of which is NaN (each of fewer than \<open>2^48\<close> elements, as every such Go
  slice is), \<^verbatim>\<open>calculateP90\<close> returns the element at 0-based index \<open>floor(0.9 * count)\<close>
  of the sequence sorted ascending (durations by their signed value, float64 values by \<open><\<close>).
  So the result is an element of the input; for \<open>count = 10\<close> it is the last element of the
  sorted sequence and no element is greater; for a single element it is that element.
\<close>

theorem calculateP90_nearest_rank:
  fixes ds :: "duration list" and fs :: "float64 list"
  assumes "ds \<noteq> []" and "length ds < 2 ^ 48"
    and "fs \<noteq> []" and "length fs < 2 ^ 48" and "NaN \<notin> set fs"
  shows "(\<exists>v a. calculateP90 less_Duration ds = Inr (v, a)
            \<and> mset a = mset ds \<and> sorted_wrt (\<lambda>x y. sint x \<le> sint y) a
            \<and> v = a ! (9 * length ds div 10)
            \<and> v \<in> set ds
            \<and> (length ds = 10 \<longrightarrow> v = last a \<and> (\<forall>d\<in>set ds. sint d \<le> sint v)))
       \<and> (\<exists>v a. calculateP90 less_float64 fs = Inr (v, a)
            \<and> mset a = mset fs \<and> sorted_wrt (\<lambda>x y. \<not> float64_less y x) a
            \<and> v = a ! (9 * length fs div 10)
            \<and> v \<in> set fs
            \<and> (length fs = 10 \<longrightarrow> v = last a \<and> (\<forall>f\<in>set fs. \<not> float64_less v f)))
       \<and> calculateP90 less_Duration [d] = Inr (d, [d])
       \<and> calculateP90 less_float64 [f] = Inr (f, [f])"
proof (intro conjI)
  note c = p90_consequences [OF assms(1), of sint]
  have "sorted_wrt (\<lambda>x y. sint x \<le> sint y) (sort_key sint ds)"
    by (simp add: sorted_Duration_iff)
  then show "\<exists>v a. calculateP90 less_Duration ds = Inr (v, a)
            \<and> mset a = mset ds \<and> sorted_wrt (\<lambda>x y. sint x \<le> sint y) a
            \<and> v = a ! (9 * length ds div 10)
            \<and> v \<in> set ds
            \<and> (length ds = 10 \<longrightarrow> v = last a \<and> (\<forall>d\<in>set ds. sint d \<le> sint v))"
    using calculateP90_Duration [OF assms(1,2)] c(1,2) by (auto simp del: sorted_wrt_map)
next
  note c = p90_consequences [OF assms(3), of float64_key]
  let ?a = "sort_key float64_key fs"
  let ?v = "?a ! (9 * length fs div 10)"
  have vn: "?v \<noteq> NaN" using c(1) assms(5) by metis
  have mx: "\<not> float64_less ?v x" if "x \<in> set fs" "float64_key x \<le> float64_key ?v" for x
  proof -
    from that(1) assms(5) have "x \<noteq> NaN" by metis
    with vn that(2) show ?thesis by (simp add: float64_less_key)
  qed
  have "NaN \<notin> set ?a" using assms(5) by simp
  then have srt: "sorted_wrt (\<lambda>x y. \<not> float64_less y x) ?a"
    by (simp add: sorted_float64_iff)
  have ten: "length fs = 10 \<longrightarrow> ?v = last ?a \<and> (\<forall>f\<in>set fs. \<not> float64_less ?v f)"
    using c(2) mx by blast
  show "\<exists>v a. calculateP90 less_float64 fs = Inr (v, a)
            \<and> mset a = mset fs \<and> sorted_wrt (\<lambda>x y. \<not> float64_less y x) a
            \<and> v = a ! (9 * length fs div 10)
            \<and> v \<in> set fs
            \<and> (length fs = 10 \<longrightarrow> v = last a \<and> (\<forall>f\<in>set fs. \<not> float64_less v f))"
    using calculateP90_float64 [OF assms(3,4,5)] c(1) srt ten by auto
qed (rule calculateP90_single)+

text \<open>
  The example of the specification: of the durations 1 to 10 the tenth, and largest, is
  selected; so is the largest of ten speeds; a single speed is returned as it is.
\<close>

theorem calculateP90_nearest_rank_witness:
  "(\<exists>a. calculateP90 less_Duration [1, 2, 3, 4, 5, 6, 7, 8, 9, 10] = Inr (10, a))
   \<and> (\<exists>a. calculateP90 less_float64
          [Finite 2, Finite 4, Finite 1, Finite 3, Finite 5, Finite 10, Finite 7, Finite 6,
           Finite 9, Finite 8] = Inr (Finite 10, a))
   \<and> calculateP90 less_float64 [Finite 7] = Inr (Finite 7, [Finite 7])"
proof -
  let ?ds = "[1, 2, 3, 4, 5, 6, 7, 8, 9, 10] :: duration list"
  let ?fs = "[Finite 2, Finite 4, Finite 1, Finite 3, Finite 5, Finite 10, Finite 7, Finite 6,
              Finite 9, Finite 8]"
  note t = calculateP90_nearest_rank [of ?ds ?fs 5 "Finite 7"]
  have h: "?ds \<noteq> []" "length ?ds < 2 ^ 48" "?fs \<noteq> []" "length ?fs < 2 ^ 48" "NaN \<notin> set ?fs"
    by simp_all
  from t [OF h] obtain v a where d: "calculateP90 less_Duration ?ds = Inr (v, a)"
    "v \<in> set ?ds" "length ?ds = 10 \<longrightarrow> v = last a \<and> (\<forall>d\<in>set ?ds. sint d \<le> sint v)"
    by blast
  from d(3) have "sint (10 :: duration) \<le> sint v" by auto
  with d(2) have v: "v = 10" by auto
  from t [OF h] obtain w b where f: "calculateP90 less_float64 ?fs = Inr (w, b)"
    "w \<in> set ?fs" "length ?fs = 10 \<longrightarrow> w = last b \<and> (\<forall>f\<in>set ?fs. \<not> float64_less w f)"
    by blast
  from f(3) have "\<not> float64_less w (Finite 10)" by auto
  with f(2) have w: "w = Finite 10" by auto
  from t [OF h] have "calculateP90 less_float64 [Finite 7] = Inr (Finite 7, [Finite 7])" by blast
  with d(1) v f(1) w show ?thesis by blast
qed

text \<open>
  C2, as stated: \<^verbatim>\<open>calculateP90\<close> sorts a copy and leaves the caller's series unchanged.
  \<^verbatim>\<open>sort.Slice\<close> sorts the slice it is given, which shares its array with the caller's:
  after the call on \<open>3, 1, 2\<close> the caller's series is \<open>1, 2, 3\<close>.
\<close>

theorem calculateP90_mutates_counterexample:
  "calculateP90 less_Duration [3, 1, 2] = Inr (3, [1, 2, 3])"
  by (simp add: calculateP90_def sort_Slice_def insertionSort_func.simps less_Duration_def
      word_sless_alt p90Index_eq)

text \<open>
  C2, amended: \<^verbatim>\<open>calculateP90\<close> sorts the caller's series in place. After a call on a
  non-empty sequence of durations, or of float64 values without NaN, the caller's series holds
  the same values in ascending order; it is unchanged exactly when it was in ascending order
  before the call.
\<close>

theorem calculateP90_sorts_in_place:
  fixes ds :: "duration list" and fs :: "float64 list"
  assumes "ds \<noteq> []" and "length ds < 2 ^ 48"
    and "fs \<noteq> []" and "length fs < 2 ^ 48" and "NaN \<notin> set fs"
  shows "(\<exists>v a. calculateP90 less_Duration ds = Inr (v, a)
            \<and> mset a = mset ds \<and> sorted_wrt (\<lambda>x y. sint x \<le> sint y) a
            \<and> (a = ds \<longleftrightarrow> sorted_wrt (\<lambda>x y. sint x \<le> sint y) ds))
       \<and> (\<exists>v a. calculateP90 less_float64 fs = Inr (v, a)
            \<and> mset a = mset fs \<and> sorted_wrt (\<lambda>x y. \<not> float64_less y x) a
            \<and> (a = fs \<longleftrightarrow> sorted_wrt (\<lambda>x y. \<not> float64_less y x) fs))"
proof
  have "sorted_wrt (\<lambda>x y. sint x \<le> sint y) (sort_key sint ds)"
    by (simp add: sorted_Duration_iff)
  moreover have "sort_key sint ds = ds \<longleftrightarrow> sorted_wrt (\<lambda>x y. sint x \<le> sint y) ds"
    by (simp only: sort_key_fixed_iff sorted_Duration_iff)
  ultimately show "\<exists>v a. calculateP90 less_Duration ds = Inr (v, a)
            \<and> mset a = mset ds \<and> sorted_wrt (\<lambda>x y. sint x \<le> sint y) a
            \<and> (a = ds \<longleftrightarrow> sorted_wrt (\<lambda>x y. sint x \<le> sint y) ds)"
    using calculateP90_Duration [OF assms(1,2)] by (simp del: sorted_wrt_map)
  have "NaN \<notin> set (sort_key float64_key fs)" using assms(5) by simp
  then have "sorted_wrt (\<lambda>x y. \<not> float64_less y x) (sort_key float64_key fs)"
    by (simp add: sorted_float64_iff)
  moreover have "sort_key float64_key fs = fs \<longleftrightarrow> sorted_wrt (\<lambda>x y. \<not> float64_less y x) fs"
    by (simp only: sort_key_fixed_iff sorted_float64_iff [OF assms(5)])
  ultimately show "\<exists>v a. calculateP90 less_float64 fs = Inr (v, a)
            \<and> mset a = mset fs \<and> sorted_wrt (\<lambda>x y. \<not> float64_less y x) a
            \<and> (a = fs \<longleftrightarrow> sorted_wrt (\<lambda>x y. \<not> float64_less y x) fs)"
    using calculateP90_float64 [OF assms(3,4,5)] by simp
qed


theorem calculateP90_sorts_in_place_witness:
  "(\<exists>v. calculateP90 less_Duration [3, 1, 2] = Inr (v, [1, 2, 3]))
   \<and> (\<exists>v. calculateP90 less_float64 [Finite 2, Finite 1] = Inr (v, [Finite 1, Finite 2]))"
proof -
  note t = calculateP90_sorts_in_place [of "[3, 1, 2]" "[Finite 2, Finite 1]"]
  have h: "[3, 1, 2 :: duration] \<noteq> []" "length [3, 1, 2 :: duration] < 2 ^ 48"
    "[Finite 2, Finite 1] \<noteq> []" "length [Finite 2, Finite 1] < 2 ^ 48"
    "NaN \<notin> set [Finite 2, Finite 1]"
    by simp_all
  from t [OF h] obtain v a where d: "calculateP90 less_Duration [3, 1, 2] = Inr (v, a)"
    "mset a = mset [3, 1, 2]" "sorted_wrt (\<lambda>x y. sint x \<le> sint y) a"
    by blast
  have "sorted_wrt (\<lambda>x y. sint x \<le> sint y) [1, 2, 3 :: duration]" by simp
  moreover have "mset a = mset [1, 2, 3 :: duration]" using d(2) by (simp add: add_mset_commute)
  moreover have "inj_on (sint :: duration \<Rightarrow> int) (set a)" by (rule inj_onI) (rule signed_word_eqI)
  ultimately have a: "a = [1, 2, 3]" using d(3) by (intro sorted_key_unique [where key = sint])
  from t [OF h] obtain w b where f: "calculateP90 less_float64 [Finite 2, Finite 1] = Inr (w, b)"
    "mset b = mset [Finite 2, Finite 1]" "sorted_wrt (\<lambda>x y. \<not> float64_less y x) b"
    by blast
  have nb: "NaN \<notin> set b" using f(2) by (metis mset_eq_setD insert_iff list.set(1,2) empty_iff float64.distinct(3))
  have "sorted_wrt (\<lambda>x y. float64_key x \<le> float64_key y) [Finite 1, Finite 2]"
    by (simp add: float64_key_def)
  moreover have "mset b = mset [Finite 1, Finite 2]" using f(2) by (simp add: add_mset_commute)
  moreover have "inj_on float64_key (set b)"
    using nb by (intro inj_onI float64_key_inj) auto
  moreover have "sorted_wrt (\<lambda>x y. float64_key x \<le> float64_key y) b"
    using f(3) nb by (simp add: sorted_float64_iff sorted_map)
  ultimately have b: "b = [Finite 1, Finite 2]"
    by (intro sorted_key_unique [where key = float64_key])
  from d(1) a f(1) b show ?thesis by blast
qed

text \<open>
  C9, as stated: \<^verbatim>\<open>calculateP90\<close> returns the same value on every permutation of a
  non-empty sequence. On the float64 values \<open>1, NaN\<close> it returns NaN, on \<open>NaN, 1\<close> it
  returns \<open>1\<close>: no comparison with NaN is true, so the sort leaves both slices as they are.
\<close>

theorem calculateP90_permutation_counterexample:
  "calculateP90 less_float64 [Finite 1, NaN] = Inr (NaN, [Finite 1, NaN])
   \<and> calculateP90 less_float64 [NaN, Finite 1] = Inr (Finite 1, [NaN, Finite 1])"
  by (simp add: calculateP90_def sort_Slice_def insertionSort_func.simps less_float64_def
      p90Index_eq)

text \<open>
  C9, amended: for every non-empty sequence of durations, and every non-empty sequence of
  float64 values none of which is NaN (each of fewer than \<open>2^48\<close> elements), and every
  permutation of it, \<^verbatim>\<open>calculateP90\<close> returns the same value on the permutation as on the
  original.
\<close>

theorem calculateP90_permutation_invariant:
  fixes ds ds' :: "duration list" and fs fs' :: "float64 list"
  assumes "ds \<noteq> []" and "length ds < 2 ^ 48" and "mset ds' = mset ds"
    and "fs \<noteq> []" and "length fs < 2 ^ 48" and "NaN \<notin> set fs" and "mset fs' = mset fs"
  shows "(\<exists>v a a'. calculateP90 less_Duration ds = Inr (v, a)
                  \<and> calculateP90 less_Duration ds' = Inr (v, a'))
       \<and> (\<exists>v a a'. calculateP90 less_float64 fs = Inr (v, a)
                  \<and> calculateP90 less_float64 fs' = Inr (v, a'))"
proof -
  have lds: "length ds' = length ds" using assms(3) by (metis size_mset)
  have lfs: "length fs' = length fs" using assms(7) by (metis size_mset)
  have sfs: "set fs' = set fs" using assms(7) by (metis set_mset_mset)
  have "inj_on (sint :: duration \<Rightarrow> int) (set ds')"
    by (rule inj_onI) (rule signed_word_eqI)
  then have kd: "sort_key sint ds' = sort_key sint ds"
    using assms(3) by (rule sort_key_perm_inj [rotated])
  have "inj_on float64_key (set fs')"
    using assms(6) sfs by (intro inj_onI float64_key_inj) auto
  then have kf: "sort_key float64_key fs' = sort_key float64_key fs"
    using assms(7) by (rule sort_key_perm_inj [rotated])
  have ne: "ds' \<noteq> []" "fs' \<noteq> []" using lds lfs assms(1,4) by auto
  from calculateP90_Duration [OF assms(1,2)] calculateP90_Duration [OF ne(1)]
    calculateP90_float64 [OF assms(4,5,6)] calculateP90_float64 [OF ne(2)]
  show ?thesis
    using assms(2,5,6) by (simp add: lds lfs sfs kd kf)
qed

theorem calculateP90_permutation_invariant_witness:
  "(\<exists>v a a'. calculateP90 less_Duration [30, 10, 20] = Inr (v, a)
             \<and> calculateP90 less_Duration [10, 20, 30] = Inr (v, a'))
   \<and> (\<exists>v a a'. calculateP90 less_float64 [Finite 2, PosInf] = Inr (v, a)
             \<and> calculateP90 less_float64 [PosInf, Finite 2] = Inr (v, a'))"
  using calculateP90_permutation_invariant [of "[30, 10, 20]" "[10, 20, 30]"
      "[Finite 2, PosInf]" "[PosInf, Finite 2]"]
  by simp

text \<open>
  C10: for a slice whose element type is neither \<^verbatim>\<open>time.Duration\<close> nor \<^verbatim>\<open>float64\<close>,
  \<^verbatim>\<open>calculateP90\<close> panics with "Unsupported type" whenever the slice has two or more
  elements, and returns the element of a single-element slice without calling the comparison.
\<close>

theorem calculateP90_unsupported_type:
  "(2 \<le> length values \<longrightarrow> calculateP90 less_default values = Inl UnsupportedType)
   \<and> calculateP90 less_default [v] = Inr (v, [v])"
proof
  show "2 \<le> length values \<longrightarrow> calculateP90 less_default values = Inl UnsupportedType"
  proof
    assume "2 \<le> length values"
    then obtain x y zs where v: "values = x # y # zs"
      by (cases "values"; cases "tl values") auto
    have "insertionSort_inner less_default values 1 = Inl UnsupportedType"
      by (simp add: less_default_def)
    then have "sort_Slice less_default values = Inl UnsupportedType"
      using v by (simp add: sort_Slice_def insertionSort_func.simps)
    then show "calculateP90 less_default values = Inl UnsupportedType"
      by (simp add: calculateP90_def)
  qed
  show "calculateP90 less_default [v] = Inr (v, [v])"
    by (simp add: calculateP90_def sort_Slice_def insertionSort_func.simps p90Index_eq)
qed

theorem calculateP90_unsupported_type_witness:
  "calculateP90 less_default [''b'', ''a''] = Inl UnsupportedType
   \<and> calculateP90 less_default [''a''] = Inr (''a'', [''a''])"
  using calculateP90_unsupported_type [of "[''b'', ''a'']" "''a''"]
  by simp

section \<open>Binary64 arithmetic\<close>

lemma int_bit_length_pos:
  "0 < n \<Longrightarrow> \<exists>k. int_bit_length n = int (Suc k) \<and> 2 ^ k \<le> n \<and> n < 2 ^ Suc k"
proof (induction n rule: int_bit_length.induct)
  case (1 n)
  show ?case
  proof (cases "n = 1")
    case True
    have "int_bit_length 1 = 1"
      by (simp add: int_bit_length.simps [of 1] int_bit_length.simps [of 0])
    with True show ?thesis
      by (intro exI [of _ 0]) simp
  next
    case False
    with 1(2) have pos: "0 < n div 2"
      by simp
    from 1(1) pos 1(2) obtain k where k: "int_bit_length (n div 2) = int (Suc k)"
      "2 ^ k \<le> n div 2" "n div 2 < 2 ^ Suc k"
      by auto
    have "int_bit_length n = int (Suc (Suc k))"
      using 1(2) k(1) by (subst int_bit_length.simps) simp
    moreover have "2 ^ Suc k \<le> n"
      using k(2) by simp
    moreover have "n < 2 ^ Suc (Suc k)"
      using k(3) by simp
    ultimately show ?thesis
      by blast
  qed
qed

lemma floor_log2_bounds:
  assumes "0 < q"
  shows "2 powi floor_log2 q \<le> q \<and> q < 2 powi (floor_log2 q + 1)"
proof -
  obtain a b where ab: "quotient_of q = (a, b)"
    by (cases "quotient_of q")
  have b: "0 < b"
    using quotient_of_denom_pos [OF ab] .
  have q: "q = of_int a / of_int b"
    using quotient_of_div [OF ab] .
  have a: "0 < a"
    using assms b q by (simp add: zero_less_divide_iff)
  obtain k where k: "int_bit_length a = int (Suc k)" "2 ^ k \<le> a" "a < 2 ^ Suc k"
    using int_bit_length_pos [OF a] by blast
  obtain l where l: "int_bit_length b = int (Suc l)" "2 ^ l \<le> b" "b < 2 ^ Suc l"
    using int_bit_length_pos [OF b] by blast
  define d where "d = int_bit_length a - int_bit_length b"
  have d: "d = int k - int l"
    by (simp add: d_def k(1) l(1))
  have "(2::int) ^ k * b < a * 2 ^ Suc l"
  proof -
    have "(2::int) ^ k * b < 2 ^ k * 2 ^ Suc l"
      using l(3) by (intro mult_strict_left_mono) simp_all
    also have "\<dots> \<le> a * 2 ^ Suc l"
      using k(2) by (intro mult_right_mono) simp_all
    finally show ?thesis .
  qed
  then have "(of_int ((2::int) ^ k * b) :: rat) < of_int (a * 2 ^ Suc l)"
    by (simp only: of_int_less_iff)
  then have "(2::rat) ^ k / 2 ^ Suc l < q"
    using b by (simp add: q field_simps)
  moreover have "(2::rat) powi (d - 1) = 2 ^ k / 2 ^ Suc l"
  proof -
    have "d - 1 = int k - int (Suc l)"
      by (simp add: d)
    moreover have "(2::rat) powi (int k - int (Suc l)) = 2 powi int k / 2 powi int (Suc l)"
      by (rule power_int_diff) simp
    ultimately show ?thesis
      by (simp only: power_int_of_nat)
  qed
  ultimately have lo: "2 powi (d - 1) < q"
    by simp
  have "a * (2::int) ^ l < 2 ^ Suc k * b"
  proof -
    have "a * (2::int) ^ l < 2 ^ Suc k * 2 ^ l"
      using k(3) by (intro mult_strict_right_mono) simp_all
    also have "\<dots> \<le> 2 ^ Suc k * b"
      using l(2) by (intro mult_left_mono) simp_all
    finally show ?thesis .
  qed
  then have "(of_int (a * (2::int) ^ l) :: rat) < of_int (2 ^ Suc k * b)"
    by (simp only: of_int_less_iff)
  then have "q < (2::rat) ^ Suc k / 2 ^ l"
    using b by (simp add: q field_simps)
  moreover have "(2::rat) powi (d + 1) = 2 ^ Suc k / 2 ^ l"
  proof -
    have "d + 1 = int (Suc k) - int l"
      by (simp add: d)
    moreover have "(2::rat) powi (int (Suc k) - int l) = 2 powi int (Suc k) / 2 powi int l"
      by (rule power_int_diff) simp
    ultimately show ?thesis
      by (simp only: power_int_of_nat)
  qed
  ultimately have hi: "q < 2 powi (d + 1)"
    by simp
  have fl: "floor_log2 q = (if 2 powi d \<le> q then d else d - 1)"
    by (simp add: floor_log2_def ab d_def Let_def)
  show ?thesis
  proof (cases "2 powi d \<le> q")
    case True
    then show ?thesis
      using hi by (simp add: fl)
  next
    case False
    then show ?thesis
      using lo by (simp add: fl)
  qed
qed

lemma floor_log2_le:
  assumes "0 < q" "q \<le> 2 powi k"
  shows "floor_log2 q \<le> k"
proof (rule ccontr)
  assume "\<not> floor_log2 q \<le> k"
  then have "(2::rat) powi k < 2 powi floor_log2 q"
    by (intro power_int_strict_increasing) simp_all
  then show False
    using floor_log2_bounds [OF assms(1)] assms(2) by simp
qed

lemma floor_log2_ge:
  assumes "0 < q" "2 powi k \<le> q"
  shows "k \<le> floor_log2 q"
proof (rule ccontr)
  assume "\<not> k \<le> floor_log2 q"
  then have "(2::rat) powi (floor_log2 q + 1) \<le> 2 powi k"
    by (intro power_int_increasing) simp_all
  then show False
    using floor_log2_bounds [OF assms(1)] assms(2) by simp
qed

lemma floor_log2_eq:
  assumes "2 powi k \<le> q" "q < 2 powi (k + 1)"
  shows "floor_log2 q = k"
proof -
  have "0 < (2::rat) powi k"
    by simp
  then have q: "0 < q"
    using assms(1) by (rule less_le_trans)
  have "floor_log2 q \<le> k"
  proof (rule ccontr)
    assume "\<not> floor_log2 q \<le> k"
    then have "(2::rat) powi (k + 1) \<le> 2 powi floor_log2 q"
      by (intro power_int_increasing) simp_all
    then show False
      using floor_log2_bounds [OF q] assms(2) by simp
  qed
  with floor_log2_ge [OF q assms(1)] show ?thesis
    by simp
qed

lemma round_half_even_le:
  assumes "x \<le> of_int m"
  shows "round_half_even x \<le> m"
proof -
  have "\<lfloor>x\<rfloor> \<le> m"
    using assms by (simp add: floor_le_iff)
  moreover have "\<lfloor>x\<rfloor> + 1 \<le> m" if "0 < x - of_int \<lfloor>x\<rfloor>"
  proof -
    have "of_int \<lfloor>x\<rfloor> < (of_int m :: rat)"
      using that assms by simp
    then show ?thesis
      by simp
  qed
  ultimately show ?thesis
    by (auto simp add: round_half_even_def Let_def)
qed

lemma round_half_even_ge:
  assumes "of_int m \<le> x"
  shows "m \<le> round_half_even x"
proof -
  have "m \<le> \<lfloor>x\<rfloor>"
    using assms by (simp add: le_floor_iff)
  then show ?thesis
    by (auto simp add: round_half_even_def Let_def)
qed


lemma round_half_even_eq:
  assumes "\<bar>x - of_int m\<bar> < 1 / 2"
  shows "round_half_even x = m"
proof (cases "of_int m \<le> x")
  case True
  have "\<lfloor>x\<rfloor> = m"
    using True assms by (intro floor_unique) simp_all
  then show ?thesis
    using assms True by (simp add: round_half_even_def Let_def)
next
  case False
  have "\<lfloor>x\<rfloor> = m - 1"
    using False assms by (intro floor_unique) simp_all
  then show ?thesis
    using assms False by (simp add: round_half_even_def Let_def)
qed

lemma float64_round_zero: "float64_round 0 = Finite 0"
  by (simp add: float64_round_def)

lemma float64_round_minus:
  assumes "float64_round q = Finite r"
  shows "float64_round (- q) = Finite (- r)"
proof (cases "q = 0")
  case True
  with assms show ?thesis
    by (simp add: float64_round_def)
next
  case False
  with assms show ?thesis
    by (auto simp add: float64_round_def Let_def sgn_if split: if_splits)
qed

lemma float64_round_upper:
  assumes "\<bar>q\<bar> \<le> 2 powi k" "- 1022 \<le> k" "k \<le> 1023"
  shows "\<exists>r. float64_round q = Finite r \<and> \<bar>r\<bar> \<le> 2 powi k
           \<and> (0 \<le> q \<longrightarrow> 0 \<le> r) \<and> (q \<le> 0 \<longrightarrow> r \<le> 0)"
proof (cases "q = 0")
  case True
  then show ?thesis
    by (simp add: float64_round_def)
next
  case False
  define e where "e = max (floor_log2 \<bar>q\<bar>) (- 1022)"
  define u where "u = (2::rat) powi (e - 52)"
  define m where "m = round_half_even (\<bar>q\<bar> / u)"
  have u: "0 < u"
    by (simp add: u_def)
  have q: "0 < \<bar>q\<bar>"
    using False by simp
  have ek: "e \<le> k"
    using floor_log2_le [OF q assms(1)] assms(2) by (simp add: e_def)
  have m0: "0 \<le> m"
    unfolding m_def using u by (intro round_half_even_ge) simp
  have "\<bar>q\<bar> / u \<le> of_int (2 ^ nat (k - e + 52))"
  proof -
    have "\<bar>q\<bar> / u \<le> 2 powi k / u"
      using assms(1) u by (simp add: divide_right_mono)
    also have "2 powi k / u = 2 powi (k - (e - 52))"
      unfolding u_def by (rule power_int_diff [symmetric]) simp
    also have "\<dots> = 2 ^ nat (k - e + 52)"
      using ek by (simp add: power_int_nonneg_exp algebra_simps)
    finally show ?thesis
      by simp
  qed
  then have "m \<le> 2 ^ nat (k - e + 52)"
    unfolding m_def by (rule round_half_even_le)
  then have "(of_int m :: rat) \<le> of_int (2 ^ nat (k - e + 52))"
    by (simp only: of_int_le_iff)
  then have "of_int m * u \<le> 2 ^ nat (k - e + 52) * u"
    using u by (simp add: mult_right_mono)
  also have "2 ^ nat (k - e + 52) * u = 2 powi (k - e + 52) * 2 powi (e - 52)"
    using ek by (simp add: power_int_nonneg_exp u_def)
  also have "\<dots> = 2 powi ((k - e + 52) + (e - 52))"
    by (rule power_int_add [symmetric]) simp
  finally have mag: "of_int m * u \<le> 2 powi k"
    by simp
  have "(2::rat) powi k < 2 powi 1024"
    using assms(3) by (intro power_int_strict_increasing) simp_all
  with mag have "\<not> 2 powi 1024 \<le> of_int m * u"
    by simp
  then have fin: "float64_round q = Finite (sgn q * (of_int m * u))"
    using False unfolding m_def u_def e_def by (simp add: float64_round_def Let_def)
  have nonneg: "0 \<le> of_int m * u"
    using m0 u by simp
  have "\<bar>sgn q * (of_int m * u)\<bar> \<le> 2 powi k"
    using mag nonneg False by (simp add: abs_mult)
  moreover have "0 \<le> q \<longrightarrow> 0 \<le> sgn q * (of_int m * u)"
    using nonneg by (simp add: sgn_if)
  moreover have "q \<le> 0 \<longrightarrow> sgn q * (of_int m * u) \<le> 0"
    using nonneg False by (simp add: sgn_if)
  ultimately show ?thesis
    using fin by blast
qed

lemma float64_round_lower:
  assumes "2 powi k \<le> \<bar>q\<bar>" "- 1022 \<le> k" "float64_round q = Finite r"
  shows "2 powi k \<le> \<bar>r\<bar> \<and> (0 < q \<longrightarrow> 0 < r) \<and> (q < 0 \<longrightarrow> r < 0)"
proof -
  have "0 < (2::rat) powi k"
    by simp
  then have q: "0 < \<bar>q\<bar>"
    using assms(1) by (rule less_le_trans)
  then have q0: "q \<noteq> 0"
    by simp
  define e where "e = floor_log2 \<bar>q\<bar>"
  define u where "u = (2::rat) powi (e - 52)"
  define m where "m = round_half_even (\<bar>q\<bar> / u)"
  have ke: "k \<le> e"
    unfolding e_def by (rule floor_log2_ge [OF q assms(1)])
  then have emax: "max (floor_log2 \<bar>q\<bar>) (- 1022) = e"
    using assms(2) by (simp add: e_def)
  have u: "0 < u"
    by (simp add: u_def)
  have "2 powi e \<le> \<bar>q\<bar>"
    unfolding e_def using floor_log2_bounds [OF q] by simp
  then have "2 powi e / u \<le> \<bar>q\<bar> / u"
    using u by (simp add: divide_right_mono)
  moreover have "2 powi e / u = 2 powi (e - (e - 52))"
    unfolding u_def by (rule power_int_diff [symmetric]) simp
  ultimately have "of_int (2 ^ 52) \<le> \<bar>q\<bar> / u"
    by simp
  then have "2 ^ 52 \<le> m"
    unfolding m_def by (rule round_half_even_ge)
  then have "(of_int (2 ^ 52) :: rat) \<le> of_int m"
    by (simp only: of_int_le_iff)
  then have "2 ^ 52 * u \<le> of_int m * u"
    using u by (simp add: mult_right_mono)
  moreover have "2 ^ 52 * u = 2 powi (52 + (e - 52))"
    unfolding u_def by (subst power_int_add) simp_all
  ultimately have "2 powi e \<le> of_int m * u"
    by simp
  moreover have "(2::rat) powi k \<le> 2 powi e"
    using ke by (intro power_int_increasing) simp_all
  ultimately have mag: "2 powi k \<le> of_int m * u"
    by simp
  have "float64_round q =
          (if 2 powi 1024 \<le> of_int m * u then (if 0 < q then PosInf else NegInf)
           else Finite (sgn q * (of_int m * u)))"
    using q0 unfolding m_def u_def by (simp add: float64_round_def Let_def emax)
  with assms(3) have r: "r = sgn q * (of_int m * u)"
    by (simp split: if_splits)
  have pos: "0 < of_int m * u"
    using \<open>0 < 2 powi k\<close> mag by (rule less_le_trans)
  have "\<bar>r\<bar> = \<bar>of_int m * u\<bar>"
    using q0 by (simp add: r abs_mult sgn_if)
  also have "\<dots> = of_int m * u"
    using pos by (rule abs_of_pos)
  finally have "2 powi k \<le> \<bar>r\<bar>"
    using mag by simp
  moreover have "0 < q \<longrightarrow> 0 < r"
    using pos by (simp add: r)
  moreover have "q < 0 \<longrightarrow> r < 0"
    using pos by (simp add: r)
  ultimately show ?thesis
    by blast
qed

lemma float64_round_between:
  assumes "2 powi j \<le> \<bar>q\<bar>" "\<bar>q\<bar> \<le> 2 powi k" "- 1022 \<le> j" "k \<le> 1023"
  shows "\<exists>r. float64_round q = Finite r \<and> 2 powi j \<le> \<bar>r\<bar> \<and> \<bar>r\<bar> \<le> 2 powi k
           \<and> (0 < q \<longrightarrow> 0 < r) \<and> (q < 0 \<longrightarrow> r < 0)"
proof -
  have "(2::rat) powi j \<le> 2 powi k"
    using assms(1,2) by simp
  then have "j \<le> k"
    by (rule_tac ccontr) (use power_int_strict_increasing [of k j "2::rat"] in simp)
  with assms(3) have "- 1022 \<le> k"
    by simp
  from float64_round_upper [OF assms(2) this assms(4)]
  obtain r where r: "float64_round q = Finite r" "\<bar>r\<bar> \<le> 2 powi k"
    by blast
  from float64_round_lower [OF assms(1,3) r(1)] r show ?thesis
    by blast
qed

lemma float64_round_eqI:
  assumes "2 powi e \<le> q" "q < 2 powi (e + 1)" "- 1022 \<le> e" "e \<le> 1022"
    and "\<bar>q / 2 powi (e - 52) - of_int m\<bar> < 1 / 2"
    and "r = of_int m * 2 powi (e - 52)"
  shows "float64_round q = Finite r"
proof -
  have "0 < (2::rat) powi e"
    by simp
  then have q: "0 < q"
    using assms(1) by (rule less_le_trans)
  have fl: "floor_log2 q = e"
    using assms(1,2) by (rule floor_log2_eq)
  have m: "round_half_even (q / 2 powi (e - 52)) = m"
    using assms(5) by (rule round_half_even_eq)
  have "q \<le> 2 powi (e + 1)"
    using assms(2) by simp
  then have "\<bar>q\<bar> \<le> 2 powi (e + 1)"
    using q by simp
  from float64_round_upper [OF this] assms(3,4)
  obtain r' where r': "float64_round q = Finite r'"
    by auto
  then have "r' = sgn q * (of_int m * 2 powi (e - 52))"
    using q assms(3) by (simp add: float64_round_def Let_def fl m split: if_splits)
  with r' q show ?thesis
    by (simp add: assms(6))
qed


lemma float64_of_int_zero: "float64_of_int 0 = Finite 0"
  by (simp add: float64_of_int_def float64_round_zero)

lemma float64_of_int_minus:
  "float64_of_int n = Finite r \<Longrightarrow> float64_of_int (- n) = Finite (- r)"
  using float64_round_minus [of "of_int n" r] by (simp add: float64_of_int_def)

lemma float64_of_int_bounds:
  assumes "0 < n" "n \<le> 2 ^ k" "k \<le> 1023"
  shows "\<exists>r. float64_of_int n = Finite r \<and> 1 \<le> r \<and> r \<le> 2 ^ k"
proof -
  have lo: "2 powi 0 \<le> \<bar>of_int n :: rat\<bar>"
    using assms(1) by simp
  have "(of_int n :: rat) \<le> of_int (2 ^ k)"
    using assms(2) by (simp only: of_int_le_iff)
  then have hi: "\<bar>of_int n :: rat\<bar> \<le> 2 powi int k"
    using assms(1) by simp
  from float64_round_between [OF lo hi] assms(1,3)
  obtain r where "float64_round (of_int n) = Finite r" "2 powi 0 \<le> \<bar>r\<bar>"
    "\<bar>r\<bar> \<le> 2 powi int k" "0 < r"
    by auto
  then show ?thesis
    by (auto simp add: float64_of_int_def)
qed

lemma float64_of_int_nonneg:
  assumes "0 \<le> n" "n \<le> 2 ^ k" "k \<le> 1023"
  shows "\<exists>r. float64_of_int n = Finite r \<and> 0 \<le> r \<and> r \<le> 2 ^ k \<and> (0 < n \<longrightarrow> 1 \<le> r)"
proof (cases "n = 0")
  case True
  then show ?thesis
    by (simp add: float64_of_int_zero)
next
  case False
  with assms(1) have "0 < n"
    by simp
  from float64_of_int_bounds [OF this assms(2,3)] show ?thesis
    by force
qed

lemma float64_of_int_sign:
  "0 < n \<Longrightarrow> float64_of_int n = PosInf \<or> (\<exists>r. float64_of_int n = Finite r \<and> 0 < r)"
  "n < 0 \<Longrightarrow> float64_of_int n = NegInf \<or> (\<exists>r. float64_of_int n = Finite r \<and> r < 0)"
proof -
  have cases: "float64_round q = (if 0 < q then PosInf else NegInf) \<or> (\<exists>r. float64_round q = Finite r)"
    for q
    by (simp add: float64_round_def Let_def)
  have sign: "(0 < n \<longrightarrow> 0 < r) \<and> (n < 0 \<longrightarrow> r < 0)"
    if "n \<noteq> 0" "float64_round (of_int n) = Finite r" for r
  proof -
    have "2 powi 0 \<le> \<bar>of_int n :: rat\<bar>"
      using that(1) by simp
    from float64_round_lower [OF this _ that(2)] show ?thesis
      by simp
  qed
  show "float64_of_int n = PosInf \<or> (\<exists>r. float64_of_int n = Finite r \<and> 0 < r)" if "0 < n"
    using cases [of "of_int n"] sign that by (auto simp add: float64_of_int_def)
  show "float64_of_int n = NegInf \<or> (\<exists>r. float64_of_int n = Finite r \<and> r < 0)" if "n < 0"
    using cases [of "of_int n"] sign that by (auto simp add: float64_of_int_def)
qed

lemma Seconds_parts:
  fixes n :: int
  assumes "0 < n" "n \<le> 2 ^ 63"
  shows "\<exists>a b c s. float64_of_int (n div 1000000000) = Finite a
           \<and> float64_of_int (n mod 1000000000) = Finite b
           \<and> float64_round (b / 1000000000) = Finite c
           \<and> float64_round (a + c) = Finite s
           \<and> 2 powi (- 30) \<le> s \<and> s \<le> 2 powi 35"
proof -
  let ?sec = "n div 1000000000" and ?nsec = "n mod 1000000000"
  have sec: "0 \<le> ?sec" "?sec \<le> 2 ^ 34"
    using assms by simp_all
  have nsec: "0 \<le> ?nsec" "?nsec \<le> 2 ^ 30"
  proof -
    show "0 \<le> ?nsec"
      by simp
    have "?nsec < 1000000000"
      by simp
    then show "?nsec \<le> 2 ^ 30"
      by simp
  qed
  have some: "0 < ?sec \<or> 0 < ?nsec"
  proof (rule ccontr)
    assume "\<not> (0 < ?sec \<or> 0 < ?nsec)"
    with sec(1) nsec(1) have "?sec = 0" "?nsec = 0"
      by linarith+
    then have "n = 0"
      using div_mult_mod_eq [of n 1000000000] by simp
    with assms(1) show False
      by simp
  qed
  obtain a where a: "float64_of_int ?sec = Finite a" "0 \<le> a" "a \<le> 2 ^ 34" "0 < ?sec \<longrightarrow> 1 \<le> a"
    using float64_of_int_nonneg [OF sec] by auto
  obtain b where b: "float64_of_int ?nsec = Finite b" "0 \<le> b" "b \<le> 2 ^ 30" "0 < ?nsec \<longrightarrow> 1 \<le> b"
    using float64_of_int_nonneg [OF nsec] by auto
  have "\<bar>b / 1000000000\<bar> \<le> 2 powi 1"
    using b(2,3) by simp
  from float64_round_upper [OF this]
  obtain c where c: "float64_round (b / 1000000000) = Finite c" "\<bar>c\<bar> \<le> 2" "0 \<le> c"
    using b(2) by auto
  have clo: "2 powi (- 30) \<le> c" if "0 < ?nsec"
  proof -
    from that b(4) have "1 \<le> b"
      by simp
    then have "2 powi (- 30) \<le> \<bar>b / 1000000000\<bar>"
      by (simp add: power_int_minus field_simps)
    from float64_round_lower [OF this _ c(1)] c(3) show ?thesis
      by simp
  qed
  have lo: "2 powi (- 30) \<le> \<bar>a + c\<bar>"
  proof (cases "0 < ?sec")
    case True
    with a(4) have "1 \<le> a"
      by simp
    moreover have "(2::rat) powi (- 30) \<le> 1"
      by (simp add: power_int_minus field_simps)
    ultimately show ?thesis
      using c(3) by simp
  next
    case False
    with some have "0 < ?nsec"
      by simp
    from clo [OF this] a(2) show ?thesis
      by simp
  qed
  have hi: "\<bar>a + c\<bar> \<le> 2 powi 35"
    using a(2,3) c(2,3) by simp
  from float64_round_between [OF lo hi]
  obtain s where s: "float64_round (a + c) = Finite s" "2 powi (- 30) \<le> \<bar>s\<bar>" "\<bar>s\<bar> \<le> 2 powi 35"
    "0 < a + c \<longrightarrow> 0 < s"
    by auto
  have "0 < (2::rat) powi (- 30)"
    by simp
  then have "0 < \<bar>a + c\<bar>"
    using lo by (rule less_le_trans)
  then have "0 < a + c"
    using a(2) c(3) by simp
  with s(4) have "0 < s"
    by simp
  with s(2,3) have "2 powi (- 30) \<le> s" "s \<le> 2 powi 35"
    by simp_all
  with a(1) b(1) c(1) s(1) show ?thesis
    by blast
qed

lemma Seconds_zero: "Seconds 0 = Finite 0"
  by (simp add: Seconds_def float64_of_int_zero float64_round_zero)

lemma Seconds_nonzero:
  assumes "d \<noteq> 0"
  shows "\<exists>s. Seconds d = Finite s \<and> 2 powi (- 30) \<le> \<bar>s\<bar> \<and> \<bar>s\<bar> \<le> 2 powi 35
           \<and> (0 < sint d \<longrightarrow> 0 < s) \<and> (sint d < 0 \<longrightarrow> s < 0)"
proof -
  define n where "n = sint d"
  have n0: "n \<noteq> 0"
    using assms by (simp add: n_def signed_eq_0_iff)
  have range: "- (2 ^ 63) \<le> n" "n < 2 ^ 63"
    using sint_ge [of d] sint_lt [of d] by (simp_all add: n_def)
  have pos: "0 < (2::rat) powi (- 30)"
    by simp
  show ?thesis
  proof (cases "0 < n")
    case True
    then have sd: "n sdiv 1000000000 = n div 1000000000" "n smod 1000000000 = n mod 1000000000"
      by (simp_all add: signed_divide_int_def signed_modulo_int_def)
    from Seconds_parts [OF True] range(2)
    obtain a b c s where p: "float64_of_int (n div 1000000000) = Finite a"
      "float64_of_int (n mod 1000000000) = Finite b"
      "float64_round (b / 1000000000) = Finite c"
      "float64_round (a + c) = Finite s"
      "2 powi (- 30) \<le> s" "s \<le> 2 powi 35"
      by auto
    have "Seconds d = Finite s"
      unfolding Seconds_def n_def [symmetric] by (simp add: sd p)
    moreover have "0 < s"
      using pos p(5) by (rule less_le_trans)
    ultimately show ?thesis
      using p(5,6) True by (simp add: n_def)
  next
    case False
    with n0 have neg: "n < 0"
      by simp
    define k where "k = - n"
    have k: "0 < k" "k \<le> 2 ^ 63" "n = - k"
      using neg range(1) by (simp_all add: k_def)
    have sd: "n sdiv 1000000000 = - (k div 1000000000)" "n smod 1000000000 = - (k mod 1000000000)"
      using k(1) by (simp_all add: k(3) signed_divide_int_def signed_modulo_int_def)
    from Seconds_parts [OF k(1,2)]
    obtain a b c s where p: "float64_of_int (k div 1000000000) = Finite a"
      "float64_of_int (k mod 1000000000) = Finite b"
      "float64_round (b / 1000000000) = Finite c"
      "float64_round (a + c) = Finite s"
      "2 powi (- 30) \<le> s" "s \<le> 2 powi 35"
      by auto
    have c': "float64_round (- (b / 1000000000)) = Finite (- c)"
      using p(3) by (rule float64_round_minus)
    have s': "float64_round (- a - c) = Finite (- s)"
      using float64_round_minus [OF p(4)] by simp
    have "Seconds d = Finite (- s)"
      unfolding Seconds_def n_def [symmetric]
      by (simp add: sd float64_of_int_minus [OF p(1)] float64_of_int_minus [OF p(2)] c' s')
    moreover have "0 < s"
      using pos p(5) by (rule less_le_trans)
    ultimately show ?thesis
      using p(5,6) neg by (simp add: n_def)
  qed
qed

lemma speed_MBps_zero_elapsed:
  "speed_MBps n 0 = (if n = 0 then NaN else if 0 < n then PosInf else NegInf)"
proof -
  consider "n = 0" | "0 < n" | "n < 0"
    by linarith
  then show ?thesis
  proof cases
    case 1
    then show ?thesis
      by (simp add: speed_MBps_def Seconds_zero float64_of_int_zero)
  next
    case 2
    with float64_of_int_sign(1) [OF 2] show ?thesis
      by (auto simp add: speed_MBps_def Seconds_zero)
  next
    case 3
    with float64_of_int_sign(2) [OF 3] show ?thesis
      by (auto simp add: speed_MBps_def Seconds_zero)
  qed
qed

lemma speed_MBps_finite:
  assumes "\<bar>n\<bar> \<le> 2 ^ 63" "d \<noteq> 0"
  shows "\<exists>r. speed_MBps n d = Finite r"
proof -
  have "(of_int \<bar>n\<bar> :: rat) \<le> of_int (2 ^ 63)"
    using assms(1) by (simp only: of_int_le_iff)
  then have "\<bar>of_int n :: rat\<bar> \<le> 2 powi 63"
    by simp
  from float64_round_upper [OF this]
  obtain x where x: "float64_of_int n = Finite x" "\<bar>x\<bar> \<le> 2 powi 63"
    by (auto simp add: float64_of_int_def)
  from Seconds_nonzero [OF assms(2)]
  obtain s where s: "Seconds d = Finite s" "2 powi (- 30) \<le> \<bar>s\<bar>"
    by blast
  have "0 < (2::rat) powi (- 30)"
    by simp
  then have s0: "0 < \<bar>s\<bar>"
    using s(2) by (rule less_le_trans)
  have "\<bar>x / s\<bar> \<le> 2 powi 63 / 2 powi (- 30)"
    unfolding abs_divide using x(2) s(2) s0 by (intro frac_le) simp_all
  also have "\<dots> = 2 powi 93"
    by (simp add: power_int_minus)
  finally have "\<bar>x / s\<bar> \<le> 2 powi 93" .
  from float64_round_upper [OF this]
  obtain y where y: "float64_round (x / s) = Finite y" "\<bar>y\<bar> \<le> 2 powi 93"
    by auto
  have "\<bar>y / 1024\<bar> \<le> 2 powi 93"
    using y(2) by simp
  from float64_round_upper [OF this]
  obtain z where z: "float64_round (y / 1024) = Finite z" "\<bar>z\<bar> \<le> 2 powi 93"
    by auto
  have "\<bar>z / 1024\<bar> \<le> 2 powi 93"
    using z(2) by simp
  from float64_round_upper [OF this]
  obtain w where w: "float64_round (z / 1024) = Finite w"
    by auto
  have "s \<noteq> 0"
    using s0 by simp
  then show ?thesis
    by (simp add: speed_MBps_def x(1) s(1) y(1) z(1) w)
qed

subsection \<open>The speed of some transfers\<close>

text \<open>
  Every step is a rounding: 30 ms are \<open>1080863910568919 \<cdot> 2^-55\<close> s, not \<open>3/100\<close> s, and
  4 bytes in that time are \<open>4691249611844267 \<cdot> 2^-65\<close> MB/s, not \<open>25/196608\<close>.
\<close>

lemma speed_4_bytes_5ms:
  "Seconds 5000000 = Finite (5764607523034235 / 1152921504606846976)"
  "speed_MBps 4 5000000 = Finite (25 / 32768)"
proof -
  have r1: "float64_round 5000000 = Finite 5000000"
    by (rule float64_round_eqI [where e = 22 and m = 5368709120000000]) simp_all
  have r2: "float64_round (1 / 200) = Finite (5764607523034235 / 1152921504606846976)"
    by (rule float64_round_eqI [where e = "- 8" and m = 5764607523034235]) simp_all
  have r3: "float64_round (5764607523034235 / 1152921504606846976) = Finite (5764607523034235 / 1152921504606846976)"
    by (rule float64_round_eqI [where e = "- 8" and m = 5764607523034235]) simp_all
  have r4: "float64_round 4 = Finite 4"
    by (rule float64_round_eqI [where e = 2 and m = 4503599627370496]) simp_all
  have r5: "float64_round (4611686018427387904 / 5764607523034235) = Finite 800"
    by (rule float64_round_eqI [where e = 9 and m = 7036874417766400]) simp_all
  have r6: "float64_round (25 / 32) = Finite (25 / 32)"
    by (rule float64_round_eqI [where e = "- 1" and m = 7036874417766400]) simp_all
  have r7: "float64_round (25 / 32768) = Finite (25 / 32768)"
    by (rule float64_round_eqI [where e = "- 11" and m = 7036874417766400]) simp_all
  show s: "Seconds 5000000 = Finite (5764607523034235 / 1152921504606846976)"
    by (simp add: Seconds_def float64_of_int_def float64_round_zero r1 r2 r3 r4 r5 r6 r7)
  show "speed_MBps 4 5000000 = Finite (25 / 32768)"
    by (simp add: speed_MBps_def s float64_of_int_def float64_round_zero r1 r2 r3 r4 r5 r6 r7)
qed

lemma speed_4_bytes_10ms:
  "Seconds 10000000 = Finite (5764607523034235 / 576460752303423488)"
  "speed_MBps 4 10000000 = Finite (25 / 65536)"
proof -
  have r1: "float64_round 10000000 = Finite 10000000"
    by (rule float64_round_eqI [where e = 23 and m = 5368709120000000]) simp_all
  have r2: "float64_round (1 / 100) = Finite (5764607523034235 / 576460752303423488)"
    by (rule float64_round_eqI [where e = "- 7" and m = 5764607523034235]) simp_all
  have r3: "float64_round (5764607523034235 / 576460752303423488) = Finite (5764607523034235 / 576460752303423488)"
    by (rule float64_round_eqI [where e = "- 7" and m = 5764607523034235]) simp_all
  have r4: "float64_round 4 = Finite 4"
    by (rule float64_round_eqI [where e = 2 and m = 4503599627370496]) simp_all
  have r5: "float64_round (2305843009213693952 / 5764607523034235) = Finite 400"
    by (rule float64_round_eqI [where e = 8 and m = 7036874417766400]) simp_all
  have r6: "float64_round (25 / 64) = Finite (25 / 64)"
    by (rule float64_round_eqI [where e = "- 2" and m = 7036874417766400]) simp_all
  have r7: "float64_round (25 / 65536) = Finite (25 / 65536)"
    by (rule float64_round_eqI [where e = "- 12" and m = 7036874417766400]) simp_all
  show s: "Seconds 10000000 = Finite (5764607523034235 / 576460752303423488)"
    by (simp add: Seconds_def float64_of_int_def float64_round_zero r1 r2 r3 r4 r5 r6 r7)
  show "speed_MBps 4 10000000 = Finite (25 / 65536)"
    by (simp add: speed_MBps_def s float64_of_int_def float64_round_zero r1 r2 r3 r4 r5 r6 r7)
qed

lemma speed_4_bytes_20ms:
  "Seconds 20000000 = Finite (5764607523034235 / 288230376151711744)"
  "speed_MBps 4 20000000 = Finite (25 / 131072)"
proof -
  have r1: "float64_round 20000000 = Finite 20000000"
    by (rule float64_round_eqI [where e = 24 and m = 5368709120000000]) simp_all
  have r2: "float64_round (1 / 50) = Finite (5764607523034235 / 288230376151711744)"
    by (rule float64_round_eqI [where e = "- 6" and m = 5764607523034235]) simp_all
  have r3: "float64_round (5764607523034235 / 288230376151711744) = Finite (5764607523034235 / 288230376151711744)"
    by (rule float64_round_eqI [where e = "- 6" and m = 5764607523034235]) simp_all
  have r4: "float64_round 4 = Finite 4"
    by (rule float64_round_eqI [where e = 2 and m = 4503599627370496]) simp_all
  have r5: "float64_round (1152921504606846976 / 5764607523034235) = Finite 200"
    by (rule float64_round_eqI [where e = 7 and m = 7036874417766400]) simp_all
  have r6: "float64_round (25 / 128) = Finite (25 / 128)"
    by (rule float64_round_eqI [where e = "- 3" and m = 7036874417766400]) simp_all
  have r7: "float64_round (25 / 131072) = Finite (25 / 131072)"
    by (rule float64_round_eqI [where e = "- 13" and m = 7036874417766400]) simp_all
  show s: "Seconds 20000000 = Finite (5764607523034235 / 288230376151711744)"
    by (simp add: Seconds_def float64_of_int_def float64_round_zero r1 r2 r3 r4 r5 r6 r7)
  show "speed_MBps 4 20000000 = Finite (25 / 131072)"
    by (simp add: speed_MBps_def s float64_of_int_def float64_round_zero r1 r2 r3 r4 r5 r6 r7)
qed

lemma speed_4_bytes_30ms:
  "Seconds 30000000 = Finite (1080863910568919 / 36028797018963968)"
  "speed_MBps 4 30000000 = Finite (4691249611844267 / 36893488147419103232)"
proof -
  have r1: "float64_round 30000000 = Finite 30000000"
    by (rule float64_round_eqI [where e = 24 and m = 8053063680000000]) simp_all
  have r2: "float64_round (3 / 100) = Finite (1080863910568919 / 36028797018963968)"
    by (rule float64_round_eqI [where e = "- 6" and m = 8646911284551352]) simp_all
  have r3: "float64_round (1080863910568919 / 36028797018963968) = Finite (1080863910568919 / 36028797018963968)"
    by (rule float64_round_eqI [where e = "- 6" and m = 8646911284551352]) simp_all
  have r4: "float64_round 4 = Finite 4"
    by (rule float64_round_eqI [where e = 2 and m = 4503599627370496]) simp_all
  have r5: "float64_round (144115188075855872 / 1080863910568919) = Finite (4691249611844267 / 35184372088832)"
    by (rule float64_round_eqI [where e = 7 and m = 4691249611844267]) simp_all
  have r6: "float64_round (4691249611844267 / 36028797018963968) = Finite (4691249611844267 / 36028797018963968)"
    by (rule float64_round_eqI [where e = "- 3" and m = 4691249611844267]) simp_all
  have r7: "float64_round (4691249611844267 / 36893488147419103232) = Finite (4691249611844267 / 36893488147419103232)"
    by (rule float64_round_eqI [where e = "- 13" and m = 4691249611844267]) simp_all
  show s: "Seconds 30000000 = Finite (1080863910568919 / 36028797018963968)"
    by (simp add: Seconds_def float64_of_int_def float64_round_zero r1 r2 r3 r4 r5 r6 r7)
  show "speed_MBps 4 30000000 = Finite (4691249611844267 / 36893488147419103232)"
    by (simp add: speed_MBps_def s float64_of_int_def float64_round_zero r1 r2 r3 r4 r5 r6 r7)
qed

lemma speed_3_bytes_5ms:
  "Seconds 5000000 = Finite (5764607523034235 / 1152921504606846976)"
  "speed_MBps 3 5000000 = Finite (75 / 131072)"
proof -
  have r1: "float64_round 5000000 = Finite 5000000"
    by (rule float64_round_eqI [where e = 22 and m = 5368709120000000]) simp_all
  have r2: "float64_round (1 / 200) = Finite (5764607523034235 / 1152921504606846976)"
    by (rule float64_round_eqI [where e = "- 8" and m = 5764607523034235]) simp_all
  have r3: "float64_round (5764607523034235 / 1152921504606846976) = Finite (5764607523034235 / 1152921504606846976)"
    by (rule float64_round_eqI [where e = "- 8" and m = 5764607523034235]) simp_all
  have r4: "float64_round 3 = Finite 3"
    by (rule float64_round_eqI [where e = 1 and m = 6755399441055744]) simp_all
  have r5: "float64_round (3458764513820540928 / 5764607523034235) = Finite 600"
    by (rule float64_round_eqI [where e = 9 and m = 5277655813324800]) simp_all
  have r6: "float64_round (75 / 128) = Finite (75 / 128)"
    by (rule float64_round_eqI [where e = "- 1" and m = 5277655813324800]) simp_all
  have r7: "float64_round (75 / 131072) = Finite (75 / 131072)"
    by (rule float64_round_eqI [where e = "- 11" and m = 5277655813324800]) simp_all
  show s: "Seconds 5000000 = Finite (5764607523034235 / 1152921504606846976)"
    by (simp add: Seconds_def float64_of_int_def float64_round_zero r1 r2 r3 r4 r5 r6 r7)
  show "speed_MBps 3 5000000 = Finite (75 / 131072)"
    by (simp add: speed_MBps_def s float64_of_int_def float64_round_zero r1 r2 r3 r4 r5 r6 r7)
qed

lemma speed_10MiB_1s:
  "Seconds 1000000000 = Finite 1"
  "speed_MBps 10485760 1000000000 = Finite 10"
proof -
  have r1: "float64_round 1 = Finite 1"
    by (rule float64_round_eqI [where e = 0 and m = 4503599627370496]) simp_all
  have r2: "float64_round 10485760 = Finite 10485760"
    by (rule float64_round_eqI [where e = 23 and m = 5629499534213120]) simp_all
  have r3: "float64_round 10240 = Finite 10240"
    by (rule float64_round_eqI [where e = 13 and m = 5629499534213120]) simp_all
  have r4: "float64_round 10 = Finite 10"
    by (rule float64_round_eqI [where e = 3 and m = 5629499534213120]) simp_all
  show s: "Seconds 1000000000 = Finite 1"
    by (simp add: Seconds_def float64_of_int_def float64_round_zero r1 r2 r3 r4)
  show "speed_MBps 10485760 1000000000 = Finite 10"
    by (simp add: speed_MBps_def s float64_of_int_def float64_round_zero r1 r2 r3 r4)
qed

section \<open>The trial loops\<close>

lemma sint_eq_0_iff: "sint (d::duration) = 0 \<longleftrightarrow> d = 0"
  by (fact signed_eq_0_iff)

lemma upload_loop_step:
  "upload_loop B bucket fileSize N i st =
     (if i \<le> N then
        (case put_of B bucket fileSize i of
           PutError \<Rightarrow> Inl (UploadError (trial_key i) bucket)
         | PutOk d \<Rightarrow>
             upload_loop B bucket fileSize N (i + 1)
               \<lparr> uploadTimes = uploadTimes st @ [d],
                 uploadSpeeds = uploadSpeeds st @ [speed_MBps fileSize d],
                 put_requests = put_requests st @ [(bucket, trial_key i, trial_data B fileSize i)] \<rparr>)
      else Inr st)"
  unfolding put_of_def trial_key_def trial_data_def
  by (subst upload_loop.simps) (simp only: Let_def)

lemma upload_loop_success:
  assumes "\<forall>j. i \<le> j \<and> j \<le> N \<longrightarrow> (\<exists>d. put_of B bucket fileSize j = PutOk d)"
  shows "upload_loop B bucket fileSize N i st =
           Inr \<lparr> uploadTimes = uploadTimes st @ map (\<lambda>j. put_elapsed (put_of B bucket fileSize j)) [i..N],
                 uploadSpeeds = uploadSpeeds st
                   @ map (\<lambda>j. speed_MBps fileSize (put_elapsed (put_of B bucket fileSize j))) [i..N],
                 put_requests = put_requests st
                   @ map (\<lambda>j. (bucket, trial_key j, trial_data B fileSize j)) [i..N] \<rparr>"
  using assms
proof (induction "nat (N + 1 - i)" arbitrary: i st)
  case 0
  then have "\<not> i \<le> N" by simp
  then show ?case by (subst upload_loop_step) simp
next
  case (Suc n)
  then have iN: "i \<le> N" by simp
  with Suc.prems obtain d where d: "put_of B bucket fileSize i = PutOk d" by blast
  have rest: "\<forall>j. i + 1 \<le> j \<and> j \<le> N \<longrightarrow> (\<exists>d. put_of B bucket fileSize j = PutOk d)"
    using Suc.prems by auto
  have n: "n = nat (N + 1 - (i + 1))" using Suc.hyps(2) by simp
  have up: "[i..N] = i # [i + 1..N]" using iN by (simp add: upto_rec1)
  show ?case
    by (subst upload_loop_step) (simp add: iN d Suc.hyps(1) [OF n rest] up)
qed

lemma upload_loop_failure:
  assumes "i \<le> k" "k \<le> N"
    and "\<forall>j. i \<le> j \<and> j < k \<longrightarrow> (\<exists>d. put_of B bucket fileSize j = PutOk d)"
    and "put_of B bucket fileSize k = PutError"
  shows "upload_loop B bucket fileSize N i st = Inl (UploadError (trial_key k) bucket)"
  using assms(1,3)
proof (induction "nat (k - i)" arbitrary: i st)
  case 0
  then have ik: "i = k" by simp
  show ?case
    using assms(2,4) by (subst upload_loop_step) (simp add: ik)
next
  case (Suc n)
  then have ik: "i < k" by simp
  with Suc.prems obtain d where d: "put_of B bucket fileSize i = PutOk d" by blast
  have rest: "\<forall>j. i + 1 \<le> j \<and> j < k \<longrightarrow> (\<exists>d. put_of B bucket fileSize j = PutOk d)"
    using Suc.prems by auto
  have n: "n = nat (k - (i + 1))" using Suc.hyps(2) by simp
  have "i + 1 \<le> k" using ik by simp
  note ih = Suc.hyps(1) [OF n this rest]
  show ?case
    using ik assms(2) by (subst upload_loop_step) (simp add: d ih)
qed

lemma upload_loop_Inr_all_ok:
  assumes "upload_loop B bucket fileSize N i st = Inr st'" "i \<le> k" "k \<le> N"
  shows "\<exists>d. put_of B bucket fileSize k = PutOk d"
proof (rule ccontr)
  assume neg: "\<not> (\<exists>d. put_of B bucket fileSize k = PutOk d)"
  define bad where "bad = {j. i \<le> j \<and> j \<le> N \<and> put_of B bucket fileSize j = PutError}"
  have kbad: "k \<in> bad"
    using neg assms(2,3) by (cases "put_of B bucket fileSize k") (auto simp: bad_def)
  have fin: "finite bad"
    by (rule finite_subset [of _ "{i..N}"]) (auto simp: bad_def)
  define m where "m = Min bad"
  have mbad: "m \<in> bad" unfolding m_def using fin kbad by (intro Min_in) auto
  have least: "\<And>j. j \<in> bad \<Longrightarrow> m \<le> j" unfolding m_def using fin by simp
  have "\<forall>j. i \<le> j \<and> j < m \<longrightarrow> (\<exists>d. put_of B bucket fileSize j = PutOk d)"
  proof (intro allI impI)
    fix j assume j: "i \<le> j \<and> j < m"
    with mbad have "j \<le> N" by (simp add: bad_def)
    with j least [of j] have "put_of B bucket fileSize j \<noteq> PutError"
      by (auto simp: bad_def)
    then show "\<exists>d. put_of B bucket fileSize j = PutOk d"
      by (cases "put_of B bucket fileSize j") auto
  qed
  with mbad have "upload_loop B bucket fileSize N i st = Inl (UploadError (trial_key m) bucket)"
    by (intro upload_loop_failure) (auto simp: bad_def)
  with assms(1) show False by simp
qed


lemma download_loop_step:
  "download_loop B bucket expected N i st =
     (if i \<le> N then
        (case get_of B bucket i of
           GetError \<Rightarrow> Inl (DownloadError (trial_key i) bucket)
         | CopyError \<Rightarrow> Inl (ReceiveError (trial_key i) bucket)
         | GetOk payloadSize d \<Rightarrow>
             (if payloadSize \<noteq> expected then Inl (UnmatchedSizes payloadSize expected)
              else download_loop B bucket expected N (i + 1)
                     \<lparr> downloadTimes = downloadTimes st @ [d],
                       downloadSpeeds = downloadSpeeds st @ [speed_MBps payloadSize d],
                       get_requests = get_requests st @ [(bucket, trial_key i)] \<rparr>))
      else Inr st)"
  unfolding get_of_def trial_key_def
  by (subst download_loop.simps) (simp only: Let_def)

lemma download_loop_success:
  assumes "\<forall>j. i \<le> j \<and> j \<le> N \<longrightarrow> (\<exists>d. get_of B bucket j = GetOk expected d)"
  shows "download_loop B bucket expected N i st =
           Inr \<lparr> downloadTimes = downloadTimes st @ map (\<lambda>j. get_elapsed (get_of B bucket j)) [i..N],
                 downloadSpeeds = downloadSpeeds st
                   @ map (\<lambda>j. speed_MBps expected (get_elapsed (get_of B bucket j))) [i..N],
                 get_requests = get_requests st @ map (\<lambda>j. (bucket, trial_key j)) [i..N] \<rparr>"
  using assms
proof (induction "nat (N + 1 - i)" arbitrary: i st)
  case 0
  then have "\<not> i \<le> N" by simp
  then show ?case by (subst download_loop_step) simp
next
  case (Suc n)
  then have iN: "i \<le> N" by simp
  with Suc.prems obtain d where d: "get_of B bucket i = GetOk expected d" by blast
  have rest: "\<forall>j. i + 1 \<le> j \<and> j \<le> N \<longrightarrow> (\<exists>d. get_of B bucket j = GetOk expected d)"
    using Suc.prems by auto
  have n: "n = nat (N + 1 - (i + 1))" using Suc.hyps(2) by simp
  have up: "[i..N] = i # [i + 1..N]" using iN by (simp add: upto_rec1)
  show ?case
    by (subst download_loop_step) (simp add: iN d Suc.hyps(1) [OF n rest] up)
qed

text \<open>The abort of a download trial whose outcome is not the expected number of bytes.\<close>

lemma download_loop_failure:
  assumes "i \<le> k" "k \<le> N"
    and "\<forall>j. i \<le> j \<and> j < k \<longrightarrow> (\<exists>d. get_of B bucket j = GetOk expected d)"
    and "\<not> (\<exists>d. get_of B bucket k = GetOk expected d)"
  shows "download_loop B bucket expected N i st =
           Inl (case get_of B bucket k of
                  GetError \<Rightarrow> DownloadError (trial_key k) bucket
                | CopyError \<Rightarrow> ReceiveError (trial_key k) bucket
                | GetOk payloadSize d \<Rightarrow> UnmatchedSizes payloadSize expected)"
  using assms(1,3)
proof (induction "nat (k - i)" arbitrary: i st)
  case 0
  then have ik: "i = k" by simp
  show ?case
    using assms(2,4)
    by (subst download_loop_step) (simp add: ik split: get_outcome.split)
next
  case (Suc n)
  then have ik: "i < k" by simp
  with Suc.prems obtain d where d: "get_of B bucket i = GetOk expected d" by blast
  have rest: "\<forall>j. i + 1 \<le> j \<and> j < k \<longrightarrow> (\<exists>d. get_of B bucket j = GetOk expected d)"
    using Suc.prems by auto
  have n: "n = nat (k - (i + 1))" using Suc.hyps(2) by simp
  have "i + 1 \<le> k" using ik by simp
  note ih = Suc.hyps(1) [OF n this rest]
  show ?case
    using ik assms(2) by (subst download_loop_step) (simp add: d ih)
qed

lemma download_loop_Inr_all_ok:
  assumes "download_loop B bucket expected N i st = Inr st'" "i \<le> k" "k \<le> N"
  shows "\<exists>d. get_of B bucket k = GetOk expected d"
proof (rule ccontr)
  assume neg: "\<not> (\<exists>d. get_of B bucket k = GetOk expected d)"
  define bad where "bad = {j. i \<le> j \<and> j \<le> N \<and> \<not> (\<exists>d. get_of B bucket j = GetOk expected d)}"
  have kbad: "k \<in> bad" using neg assms(2,3) by (simp add: bad_def)
  have fin: "finite bad"
    by (rule finite_subset [of _ "{i..N}"]) (auto simp: bad_def)
  define m where "m = Min bad"
  have mbad: "m \<in> bad" unfolding m_def using fin kbad by (intro Min_in) auto
  have least: "\<And>j. j \<in> bad \<Longrightarrow> m \<le> j" unfolding m_def using fin by simp
  have "\<forall>j. i \<le> j \<and> j < m \<longrightarrow> (\<exists>d. get_of B bucket j = GetOk expected d)"
  proof (intro allI impI)
    fix j assume j: "i \<le> j \<and> j < m"
    with mbad have "j \<le> N" by (simp add: bad_def)
    with j least [of j] show "\<exists>d. get_of B bucket j = GetOk expected d"
      by (auto simp: bad_def)
  qed
  with mbad have "\<exists>a. download_loop B bucket expected N i st = Inl a"
    using download_loop_failure [of i m N B bucket expected st] by (simp add: bad_def)
  with assms(1) show False by auto
qed

subsection \<open>The two phases as \<^verbatim>\<open>main\<close> calls them\<close>

lemma upload_trials_success:
  assumes "0 \<le> fileSize \<and> fileSize \<le> maxAlloc \<and> fileSize \<le> available_memory B"
    and "\<forall>j. 1 \<le> j \<and> j \<le> N \<longrightarrow> (\<exists>d. put_of B bucket fileSize j = PutOk d)"
  shows "upload_trials B bucket fileSize N =
           Inr \<lparr> uploadTimes = map (\<lambda>j. put_elapsed (put_of B bucket fileSize j)) [1..N],
                 uploadSpeeds = map (\<lambda>j. speed_MBps fileSize (put_elapsed (put_of B bucket fileSize j))) [1..N],
                 put_requests = map (\<lambda>j. (bucket, trial_key j, trial_data B fileSize j)) [1..N] \<rparr>"
  using assms(1) upload_loop_success [OF assms(2)]
  by (simp add: upload_trials_def)

lemma upload_trials_panic:
  assumes "fileSize < 0 \<or> maxAlloc < fileSize"
  shows "upload_trials B bucket fileSize N = Inl (RuntimePanic MakeSliceLenOutOfRange)"
  using assms by (simp add: upload_trials_def)

lemma upload_trials_Inr:
  assumes "upload_trials B bucket fileSize N = Inr st"
  shows "0 \<le> fileSize \<and> fileSize \<le> maxAlloc \<and> fileSize \<le> available_memory B"
    and "\<forall>j. 1 \<le> j \<and> j \<le> N \<longrightarrow> (\<exists>d. put_of B bucket fileSize j = PutOk d)"
proof -
  show fits: "0 \<le> fileSize \<and> fileSize \<le> maxAlloc \<and> fileSize \<le> available_memory B"
    using assms by (simp add: upload_trials_def split: if_splits)
  with assms have "upload_loop B bucket fileSize N 1
      \<lparr> uploadTimes = [], uploadSpeeds = [], put_requests = [] \<rparr> = Inr st"
    by (simp add: upload_trials_def)
  then show "\<forall>j. 1 \<le> j \<and> j \<le> N \<longrightarrow> (\<exists>d. put_of B bucket fileSize j = PutOk d)"
    using upload_loop_Inr_all_ok by blast
qed

lemma download_trials_success:
  assumes "\<forall>j. 1 \<le> j \<and> j \<le> N \<longrightarrow> (\<exists>d. get_of B bucket j = GetOk expected d)"
  shows "download_trials B bucket expected N =
           Inr \<lparr> downloadTimes = map (\<lambda>j. get_elapsed (get_of B bucket j)) [1..N],
                 downloadSpeeds = map (\<lambda>j. speed_MBps expected (get_elapsed (get_of B bucket j))) [1..N],
                 get_requests = map (\<lambda>j. (bucket, trial_key j)) [1..N] \<rparr>"
  using download_loop_success [OF assms]
  by (simp add: download_trials_def)

lemma download_trials_Inr:
  assumes "download_trials B bucket expected N = Inr st"
  shows "\<forall>j. 1 \<le> j \<and> j \<le> N \<longrightarrow> (\<exists>d. get_of B bucket j = GetOk expected d)"
  using assms download_loop_Inr_all_ok unfolding download_trials_def by blast

lemma uploadFiles_Inr:
  assumes "uploadFiles B bucket fileSize N = Inr (ts, ss)"
  shows "0 \<le> fileSize \<and> fileSize \<le> maxAlloc \<and> fileSize \<le> available_memory B"
    and "\<forall>j. 1 \<le> j \<and> j \<le> N \<longrightarrow> (\<exists>d. put_of B bucket fileSize j = PutOk d)"
    and "ts = map (\<lambda>j. put_elapsed (put_of B bucket fileSize j)) [1..N]"
    and "ss = map (speed_MBps fileSize) ts"
proof -
  from assms obtain st where st: "upload_trials B bucket fileSize N = Inr st"
    and ts: "ts = uploadTimes st" and ss: "ss = uploadSpeeds st"
    by (auto simp: uploadFiles_def split: sum.splits)
  note ok = upload_trials_Inr [OF st]
  show "0 \<le> fileSize \<and> fileSize \<le> maxAlloc \<and> fileSize \<le> available_memory B" by (rule ok(1))
  show "\<forall>j. 1 \<le> j \<and> j \<le> N \<longrightarrow> (\<exists>d. put_of B bucket fileSize j = PutOk d)" by (rule ok(2))
  from upload_trials_success [OF ok] st
  show "ts = map (\<lambda>j. put_elapsed (put_of B bucket fileSize j)) [1..N]"
    and "ss = map (speed_MBps fileSize) ts"
    by (auto simp: ts ss)
qed

lemma uploadFiles_success:
  assumes "0 \<le> fileSize \<and> fileSize \<le> maxAlloc \<and> fileSize \<le> available_memory B"
    and "\<forall>j. 1 \<le> j \<and> j \<le> N \<longrightarrow> (\<exists>d. put_of B bucket fileSize j = PutOk d)"
  shows "uploadFiles B bucket fileSize N =
           Inr (map (\<lambda>j. put_elapsed (put_of B bucket fileSize j)) [1..N],
                map (\<lambda>j. speed_MBps fileSize (put_elapsed (put_of B bucket fileSize j))) [1..N])"
  by (simp add: uploadFiles_def upload_trials_success [OF assms])

lemma uploadFiles_panic:
  assumes "fileSize < 0 \<or> maxAlloc < fileSize"
  shows "uploadFiles B bucket fileSize N = Inl (RuntimePanic MakeSliceLenOutOfRange)"
  by (simp add: uploadFiles_def upload_trials_panic [OF assms])

lemma downloadFiles_Inr:
  assumes "downloadFiles B bucket expected N = Inr (ts, ss)"
  shows "\<forall>j. 1 \<le> j \<and> j \<le> N \<longrightarrow> (\<exists>d. get_of B bucket j = GetOk expected d)"
    and "ts = map (\<lambda>j. get_elapsed (get_of B bucket j)) [1..N]"
    and "ss = map (speed_MBps expected) ts"
proof -
  from assms obtain st where st: "download_trials B bucket expected N = Inr st"
    and ts: "ts = downloadTimes st" and ss: "ss = downloadSpeeds st"
    by (auto simp: downloadFiles_def split: sum.splits)
  note ok = download_trials_Inr [OF st]
  show "\<forall>j. 1 \<le> j \<and> j \<le> N \<longrightarrow> (\<exists>d. get_of B bucket j = GetOk expected d)" by (rule ok)
  from download_trials_success [OF ok] st
  show "ts = map (\<lambda>j. get_elapsed (get_of B bucket j)) [1..N]"
    and "ss = map (speed_MBps expected) ts"
    by (auto simp: ts ss)
qed

lemma downloadFiles_success:
  assumes "\<forall>j. 1 \<le> j \<and> j \<le> N \<longrightarrow> (\<exists>d. get_of B bucket j = GetOk expected d)"
  shows "downloadFiles B bucket expected N =
           Inr (map (\<lambda>j. get_elapsed (get_of B bucket j)) [1..N],
                map (\<lambda>j. speed_MBps expected (get_elapsed (get_of B bucket j))) [1..N])"
  by (simp add: downloadFiles_def download_trials_success [OF assms])

lemma downloadFiles_failure:
  assumes "1 \<le> k" "k \<le> N"
    and "\<forall>j. 1 \<le> j \<and> j < k \<longrightarrow> (\<exists>d. get_of B bucket j = GetOk expected d)"
    and "\<not> (\<exists>d. get_of B bucket k = GetOk expected d)"
  shows "downloadFiles B bucket expected N =
           Inl (case get_of B bucket k of
                  GetError \<Rightarrow> DownloadError (trial_key k) bucket
                | CopyError \<Rightarrow> ReceiveError (trial_key k) bucket
                | GetOk payloadSize d \<Rightarrow> UnmatchedSizes payloadSize expected)"
  by (simp add: downloadFiles_def download_trials_def download_loop_failure [OF assms])

subsection \<open>The download loop of the program listed in \<^verbatim>\<open>README.md\<close>\<close>

lemma download_loop_README_step:
  "download_loop_README B bucket fileSize N i st =
     (if i \<le> N then
        (case stat_of B bucket i of
           StatGetError \<Rightarrow> Inl (DownloadError (trial_key i) bucket)
         | StatStatError \<Rightarrow> Inl (StatError (trial_key i) bucket)
         | StatOk payloadStat_Size d \<Rightarrow>
             download_loop_README B bucket fileSize N (i + 1)
               \<lparr> downloadTimes = downloadTimes st @ [d],
                 downloadSpeeds = downloadSpeeds st @ [speed_MBps fileSize d],
                 get_requests = get_requests st @ [(bucket, trial_key i)] \<rparr>)
      else Inr st)"
  unfolding stat_of_def trial_key_def
  by (subst download_loop_README.simps) (simp only: Let_def)

text \<open>Whatever the sizes of the objects are, the loop goes through.\<close>

lemma download_loop_README_success:
  assumes "\<forall>j. i \<le> j \<and> j \<le> N \<longrightarrow> (\<exists>n d. stat_of B bucket j = StatOk n d)"
  shows "download_loop_README B bucket fileSize N i st =
           Inr \<lparr> downloadTimes = downloadTimes st @ map (\<lambda>j. stat_elapsed (stat_of B bucket j)) [i..N],
                 downloadSpeeds = downloadSpeeds st
                   @ map (\<lambda>j. speed_MBps fileSize (stat_elapsed (stat_of B bucket j))) [i..N],
                 get_requests = get_requests st @ map (\<lambda>j. (bucket, trial_key j)) [i..N] \<rparr>"
  using assms
proof (induction "nat (N + 1 - i)" arbitrary: i st)
  case 0
  then have "\<not> i \<le> N" by simp
  then show ?case by (subst download_loop_README_step) simp
next
  case (Suc k)
  then have iN: "i \<le> N" by simp
  with Suc.prems obtain n d where d: "stat_of B bucket i = StatOk n d" by blast
  have rest: "\<forall>j. i + 1 \<le> j \<and> j \<le> N \<longrightarrow> (\<exists>n d. stat_of B bucket j = StatOk n d)"
    using Suc.prems by auto
  have k: "k = nat (N + 1 - (i + 1))" using Suc.hyps(2) by simp
  have up: "[i..N] = i # [i + 1..N]" using iN by (simp add: upto_rec1)
  show ?case
    by (subst download_loop_README_step) (simp add: iN d Suc.hyps(1) [OF k rest] up)
qed

lemma downloadFiles_README_success:
  assumes "\<forall>j. 1 \<le> j \<and> j \<le> N \<longrightarrow> (\<exists>n d. stat_of B bucket j = StatOk n d)"
  shows "downloadFiles_README B bucket fileSize N =
           Inr (map (\<lambda>j. stat_elapsed (stat_of B bucket j)) [1..N],
                map (\<lambda>j. speed_MBps fileSize (stat_elapsed (stat_of B bucket j))) [1..N])"
  by (simp add: downloadFiles_README_def download_loop_README_success [OF assms])

lemma length_upto_nat: "length [1..N] = nat N"
  by simp

section \<open>The driver\<close>

lemma main_Inr_phases:
  assumes "main f env = Inr r"
  shows "\<exists>uts uss dts dss.
           uploadFiles (storage env) (bucketName f) (int64_wrap (fileSizeMb f * (1024 * 1024))) (trials f)
             = Inr (uts, uss)
         \<and> downloadFiles (storage env) (bucketName f) (int64_wrap (fileSizeMb f * (1024 * 1024))) (trials f)
             = Inr (dts, dss)"
  using assms
  by (auto simp: main_def Let_def split: if_splits sum.splits prod.splits)

lemma calculateAverage_empty: "calculateAverage [] = Inl DivideByZero"
  by (simp add: calculateAverage_def int64_div_def)

lemma calculateP90_empty: "calculateP90 lt [] = Inl IndexOutOfRange"
  by (simp add: calculateP90_def sort_Slice_def insertionSort_func.simps p90Index_eq)

lemma main_without_trials:
  assumes "endpoint f \<noteq> []" "bucketName f \<noteq> []"
    and "accessKey f \<noteq> [] \<or> S3_ACCESS_KEY env \<noteq> []"
    and "secretKey f \<noteq> [] \<or> S3_SECRET_KEY env \<noteq> []"
    and "\<not> client_fails env"
    and "0 \<le> int64_wrap (fileSizeMb f * (1024 * 1024))
         \<and> int64_wrap (fileSizeMb f * (1024 * 1024)) \<le> maxAlloc
         \<and> int64_wrap (fileSizeMb f * (1024 * 1024)) \<le> available_memory (storage env)"
    and "trials f \<le> 0"
  shows "main f env = Inl (RuntimePanic DivideByZero)"
proof -
  let ?size = "int64_wrap (fileSizeMb f * (1024 * 1024))"
  have e: "[1..trials f] = []" using assms(7) by simp
  have up: "uploadFiles (storage env) (bucketName f) ?size (trials f) = Inr ([], [])"
  proof -
    have "\<forall>j. 1 \<le> j \<and> j \<le> trials f \<longrightarrow>
            (\<exists>d. put_of (storage env) (bucketName f) ?size j = PutOk d)"
      using assms(7) by auto
    from uploadFiles_success [OF assms(6) this] show ?thesis by (simp add: e)
  qed
  have down: "downloadFiles (storage env) (bucketName f) ?size (trials f) = Inr ([], [])"
  proof -
    have "\<forall>j. 1 \<le> j \<and> j \<le> trials f \<longrightarrow>
            (\<exists>d. get_of (storage env) (bucketName f) j = GetOk ?size d)"
      using assms(7) by auto
    from downloadFiles_success [OF this] show ?thesis by (simp add: e)
  qed
  show ?thesis
    using assms(1-5)
    by (auto simp: main_def Let_def up [simplified] down [simplified] or_panic_def
        calculateAverage_empty)
qed

lemma main_buffer_too_large:
  assumes "endpoint f \<noteq> []" "bucketName f \<noteq> []"
    and "accessKey f \<noteq> [] \<or> S3_ACCESS_KEY env \<noteq> []"
    and "secretKey f \<noteq> [] \<or> S3_SECRET_KEY env \<noteq> []"
    and "\<not> client_fails env"
    and "int64_wrap (fileSizeMb f * (1024 * 1024)) < 0
         \<or> maxAlloc < int64_wrap (fileSizeMb f * (1024 * 1024))"
  shows "main f env = Inl (RuntimePanic MakeSliceLenOutOfRange)"
proof -
  note up = uploadFiles_panic [OF assms(6), of "storage env" "bucketName f" "trials f"]
  show ?thesis
    using assms(1-5) by (auto simp: main_def Let_def up [simplified])
qed

section \<open>Runs of the example environments\<close>

lemma upto_from_1: "[1..1] = [1::int]" "[1..2] = [1, 2]" "[1..3] = [1, 2, 3]"
  by (simp_all add: upto_rec1)

lemma steady_uploads:
  "uploadFiles steady_backend bucket 4 2
     = Inr ([10000000, 20000000], [Finite (25 / 65536), Finite (25 / 131072)])"
proof -
  have "0 \<le> (4::int) \<and> 4 \<le> maxAlloc \<and> 4 \<le> available_memory steady_backend"
    by (simp add: maxAlloc_def steady_backend_def)
  moreover have "\<forall>j. 1 \<le> j \<and> j \<le> 2 \<longrightarrow> (\<exists>d. put_of steady_backend bucket 4 j = PutOk d)"
    by (simp add: put_of_def steady_backend_def)
  ultimately show ?thesis
    by (simp add: uploadFiles_success put_of_def steady_backend_def upto_from_1
        speed_4_bytes_10ms(2) speed_4_bytes_20ms(2))
qed

lemma steady_downloads:
  "downloadFiles steady_backend bucket 4 2
     = Inr ([5000000, 10000000], [Finite (25 / 32768), Finite (25 / 65536)])"
proof -
  have "\<forall>j. 1 \<le> j \<and> j \<le> 2 \<longrightarrow> (\<exists>d. get_of steady_backend bucket j = GetOk 4 d)"
    by (simp add: get_of_def steady_backend_def)
  from downloadFiles_success [OF this]
  show ?thesis
    by (simp add: get_of_def steady_backend_def upto_from_1
        speed_4_bytes_5ms(2) speed_4_bytes_10ms(2))
qed

lemma instant_uploads: "uploadFiles instant_backend bucket 1 1 = Inr ([0], [PosInf])"
proof -
  have "0 \<le> (1::int) \<and> 1 \<le> maxAlloc \<and> 1 \<le> available_memory instant_backend"
    by (simp add: maxAlloc_def instant_backend_def)
  moreover have "\<forall>j. 1 \<le> j \<and> j \<le> 1 \<longrightarrow> (\<exists>d. put_of instant_backend bucket 1 j = PutOk d)"
    by (simp add: put_of_def instant_backend_def)
  ultimately show ?thesis
    by (simp add: uploadFiles_success put_of_def instant_backend_def upto_from_1
        speed_MBps_zero_elapsed)
qed

lemma instant_downloads: "downloadFiles instant_backend bucket 1 1 = Inr ([0], [PosInf])"
proof -
  have "\<forall>j. 1 \<le> j \<and> j \<le> 1 \<longrightarrow> (\<exists>d. get_of instant_backend bucket j = GetOk 1 d)"
    by (simp add: get_of_def instant_backend_def)
  from downloadFiles_success [OF this]
  show ?thesis
    by (simp add: get_of_def instant_backend_def upto_from_1 speed_MBps_zero_elapsed)
qed

lemma short_read_downloads:
  "downloadFiles short_read_backend bucket 4 3 = Inl (UnmatchedSizes 3 4)"
proof -
  have "\<forall>j. 1 \<le> j \<and> j < 2 \<longrightarrow> (\<exists>d. get_of short_read_backend bucket j = GetOk 4 d)"
    by (auto simp: get_of_def short_read_backend_def)
  moreover have "\<not> (\<exists>d. get_of short_read_backend bucket 2 = GetOk 4 d)"
    by (simp add: get_of_def short_read_backend_def)
  ultimately show ?thesis
    using downloadFiles_failure [of 2 3 short_read_backend bucket 4]
    by (simp add: get_of_def short_read_backend_def)
qed

lemma short_read_downloads_README:
  "downloadFiles_README short_read_backend bucket 4 3
     = Inr ([5000000, 5000000, 5000000],
            [Finite (25 / 32768), Finite (25 / 32768), Finite (25 / 32768)])"
proof -
  have "\<forall>j. 1 \<le> j \<and> j \<le> 3 \<longrightarrow> (\<exists>n d. stat_of short_read_backend bucket j = StatOk n d)"
    by (simp add: stat_of_def short_read_backend_def)
  from downloadFiles_README_success [OF this]
  show ?thesis
    by (simp add: stat_of_def short_read_backend_def upto_from_1 speed_4_bytes_5ms(2))
qed

section \<open>Claims about the trial runner\<close>

text \<open>
  C3, as stated: the elapsed time of every trial is strictly positive, and a zero elapsed time
  is treated as an error instead of giving an infinite speed sample. Neither loop looks at the
  elapsed time: when the clock reads 0 ns for a one-byte transfer, the trial succeeds and the
  sample \<open>+Inf\<close> enters the upload series and the download series.
\<close>

theorem zero_elapsed_counterexample:
  "uploadFiles instant_backend ''bucket'' 1 1 = Inr ([0], [PosInf])
   \<and> downloadFiles instant_backend ''bucket'' 1 1 = Inr ([0], [PosInf])"
  by (simp add: instant_uploads instant_downloads)

text \<open>
  C3, amended: no trial is rejected for its elapsed time. Whenever the buffer of the upload
  phase can be allocated (the file size is not negative, not above \<open>maxAlloc\<close> and not above
  the memory to be had) and every request of a phase is answered (every download with the
  expected number of bytes), whatever the elapsed times are, the phase ends normally with the
  elapsed times as its duration samples and \<^verbatim>\<open>float64(bytes) / seconds / 1024 / 1024\<close> of
  each, every operation rounding to binary64, as its speed samples: 4 bytes in 30 ms are
  \<open>4691249611844267 \<cdot> 2^-65\<close> MB/s. A speed sample is a finite number exactly when its
  elapsed time is not zero; for a zero elapsed time it is \<open>+Inf\<close> when the byte count is
  positive and NaN when the byte count is zero.
\<close>

theorem speed_samples_unguarded:
  assumes "0 \<le> fileSize" "fileSize \<le> maxAlloc" "fileSize \<le> available_memory B"
    and "\<forall>i\<in>{1..N}. \<exists>d. put_of B bucket fileSize i = PutOk d"
    and "\<forall>i\<in>{1..N}. \<exists>d. get_of B bucket i = GetOk expected d"
  shows "uploadFiles B bucket fileSize N =
           Inr (map (\<lambda>i. put_elapsed (put_of B bucket fileSize i)) [1..N],
                map (\<lambda>i. speed_MBps fileSize (put_elapsed (put_of B bucket fileSize i))) [1..N])
       \<and> downloadFiles B bucket expected N =
           Inr (map (\<lambda>i. get_elapsed (get_of B bucket i)) [1..N],
                map (\<lambda>i. speed_MBps expected (get_elapsed (get_of B bucket i))) [1..N])
       \<and> speed_MBps n d =
           float64_div (float64_div (float64_div (float64_of_int n) (Seconds d)) (Finite 1024))
             (Finite 1024)
       \<and> (- (2 ^ 63) \<le> n \<and> n < 2 ^ 63 \<and> d \<noteq> 0 \<longrightarrow> (\<exists>r. speed_MBps n d = Finite r))
       \<and> (0 < n \<longrightarrow> speed_MBps n 0 = PosInf)
       \<and> speed_MBps 0 0 = NaN
       \<and> speed_MBps 4 30000000 = Finite (4691249611844267 / 36893488147419103232)"
proof (intro conjI impI)
  have p: "\<forall>j. 1 \<le> j \<and> j \<le> N \<longrightarrow> (\<exists>d. put_of B bucket fileSize j = PutOk d)"
    using assms(4) by simp
  have g: "\<forall>j. 1 \<le> j \<and> j \<le> N \<longrightarrow> (\<exists>d. get_of B bucket j = GetOk expected d)"
    using assms(5) by simp
  show "uploadFiles B bucket fileSize N =
           Inr (map (\<lambda>i. put_elapsed (put_of B bucket fileSize i)) [1..N],
                map (\<lambda>i. speed_MBps fileSize (put_elapsed (put_of B bucket fileSize i))) [1..N])"
    using assms(1-3) p by (intro uploadFiles_success) simp_all
  show "downloadFiles B bucket expected N =
           Inr (map (\<lambda>i. get_elapsed (get_of B bucket i)) [1..N],
                map (\<lambda>i. speed_MBps expected (get_elapsed (get_of B bucket i))) [1..N])"
    using g by (rule downloadFiles_success)
  show "speed_MBps n d =
           float64_div (float64_div (float64_div (float64_of_int n) (Seconds d)) (Finite 1024))
             (Finite 1024)"
    by (simp add: speed_MBps_def)
  show "speed_MBps 0 0 = NaN"
    by (simp add: speed_MBps_zero_elapsed)
  show "speed_MBps 4 30000000 = Finite (4691249611844267 / 36893488147419103232)"
    by (rule speed_4_bytes_30ms(2))
next
  assume "- (2 ^ 63) \<le> n \<and> n < 2 ^ 63 \<and> d \<noteq> 0"
  then have "\<bar>n\<bar> \<le> 2 ^ 63" "d \<noteq> 0"
    by (auto simp add: abs_le_iff)
  then show "\<exists>r. speed_MBps n d = Finite r"
    by (rule speed_MBps_finite)
next
  assume "0 < n"
  then show "speed_MBps n 0 = PosInf"
    by (simp add: speed_MBps_zero_elapsed)
qed

text \<open>
  Two trials of 4 bytes each in either direction, and 10 MiB in one second and in no time.
\<close>

theorem speed_samples_unguarded_witness:
  "uploadFiles steady_backend ''bucket'' 4 2
     = Inr ([10000000, 20000000], [Finite (25 / 65536), Finite (25 / 131072)])
   \<and> downloadFiles steady_backend ''bucket'' 4 2
     = Inr ([5000000, 10000000], [Finite (25 / 32768), Finite (25 / 65536)])
   \<and> speed_MBps 10485760 1000000000 = Finite 10
   \<and> speed_MBps 10485760 0 = PosInf"
  using speed_samples_unguarded [where fileSize = 4 and B = steady_backend and N = 2
      and bucket = "''bucket''" and expected = 4 and n = 10485760 and d = 1000000000]
  by (simp add: put_of_def get_of_def steady_backend_def maxAlloc_def upto_from_1
      speed_4_bytes_5ms(2) speed_4_bytes_10ms(2) speed_4_bytes_20ms(2) speed_10MiB_1s(2))

text \<open>
  What \<^verbatim>\<open>downloadFiles\<close> of \<^verbatim>\<open>main.go\<close> does with the byte count that \<^verbatim>\<open>io.Copy\<close>
  returns. A download phase ends normally only if every trial received exactly
  \<^verbatim>\<open>expectedFileSize\<close> bytes, and the speed of each trial is
  \<^verbatim>\<open>float64(payloadSize) / duration.Seconds() / 1024 / 1024\<close> of the count it received; the
  first trial that receives another count ends the run with \<open>Unmatched sizes\<close>; and
  \<^verbatim>\<open>main\<close> prints a report only if every download trial received the expected count.
\<close>

lemma downloadFiles_verifies_size:
  "(downloadFiles B bucket expected N = Inr (ts, ss) \<longrightarrow>
      length ts = nat N \<and> length ss = nat N
      \<and> (\<forall>i\<in>{1..N}. \<exists>payloadSize d.
            get_of B bucket i = GetOk payloadSize d \<and> payloadSize = expected
            \<and> ts ! nat (i - 1) = d
            \<and> ss ! nat (i - 1) =
                float64_div (float64_div (float64_div (float64_of_int payloadSize) (Seconds d))
                  (Finite 1024)) (Finite 1024)))
   \<and> (1 \<le> k \<and> k \<le> N
        \<and> (\<forall>j\<in>{1..<k}. \<exists>d. get_of B bucket j = GetOk expected d)
        \<and> get_of B bucket k = GetOk payloadSize d \<and> payloadSize \<noteq> expected \<longrightarrow>
      downloadFiles B bucket expected N = Inl (UnmatchedSizes payloadSize expected))
   \<and> (main f env = Inr report \<longrightarrow>
        (\<forall>i\<in>{1..trials f}. \<exists>d. get_of (storage env) (bucketName f) i
             = GetOk (int64_wrap (fileSizeMb f * (1024 * 1024))) d))"
proof (intro conjI impI)
  assume ok: "downloadFiles B bucket expected N = Inr (ts, ss)"
  note r = downloadFiles_Inr [OF ok]
  show "length ts = nat N" by (simp add: r(2))
  show "length ss = nat N" by (simp add: r(2,3))
  show "\<forall>i\<in>{1..N}. \<exists>payloadSize d.
            get_of B bucket i = GetOk payloadSize d \<and> payloadSize = expected
            \<and> ts ! nat (i - 1) = d
            \<and> ss ! nat (i - 1) =
                float64_div (float64_div (float64_div (float64_of_int payloadSize) (Seconds d))
                  (Finite 1024)) (Finite 1024)"
  proof
    fix i assume i: "i \<in> {1..N}"
    then obtain d where d: "get_of B bucket i = GetOk expected d" using r(1) by auto
    have idx: "nat (i - 1) < length [1..N]" using i by simp
    have nth: "[1..N] ! nat (i - 1) = i" using i by simp
    have t: "ts ! nat (i - 1) = d"
      using idx nth d by (simp add: r(2))
    have "ss ! nat (i - 1) = speed_MBps expected (ts ! nat (i - 1))"
      using idx by (simp add: r(3) r(2))
    with t d show "\<exists>payloadSize d.
            get_of B bucket i = GetOk payloadSize d \<and> payloadSize = expected
            \<and> ts ! nat (i - 1) = d
            \<and> ss ! nat (i - 1) =
                float64_div (float64_div (float64_div (float64_of_int payloadSize) (Seconds d))
                  (Finite 1024)) (Finite 1024)"
      by (simp add: speed_MBps_def)
  qed
next
  assume a: "1 \<le> k \<and> k \<le> N
        \<and> (\<forall>j\<in>{1..<k}. \<exists>d. get_of B bucket j = GetOk expected d)
        \<and> get_of B bucket k = GetOk payloadSize d \<and> payloadSize \<noteq> expected"
  then have "\<forall>j. 1 \<le> j \<and> j < k \<longrightarrow> (\<exists>d. get_of B bucket j = GetOk expected d)"
    by simp
  moreover from a have "\<not> (\<exists>d. get_of B bucket k = GetOk expected d)" by simp
  ultimately show "downloadFiles B bucket expected N = Inl (UnmatchedSizes payloadSize expected)"
    using a downloadFiles_failure [of k N B bucket expected] by simp
next
  assume "main f env = Inr report"
  from main_Inr_phases [OF this] obtain dts dss where
    "downloadFiles (storage env) (bucketName f) (int64_wrap (fileSizeMb f * (1024 * 1024))) (trials f)
       = Inr (dts, dss)" by blast
  from downloadFiles_Inr(1) [OF this]
  show "\<forall>i\<in>{1..trials f}. \<exists>d. get_of (storage env) (bucketName f) i
             = GetOk (int64_wrap (fileSizeMb f * (1024 * 1024))) d"
    by simp
qed

text \<open>
  What \<^verbatim>\<open>downloadFiles\<close> of the program listed in \<^verbatim>\<open>README.md\<close> does with the size that
  \<^verbatim>\<open>Stat\<close> reports: nothing. Whatever sizes the objects have, the phase ends normally when
  every \<^verbatim>\<open>GetObject\<close> and every \<^verbatim>\<open>Stat\<close> succeeds, and the speed of each trial is
  \<^verbatim>\<open>float64(fileSize) / duration.Seconds() / 1024 / 1024\<close> of the size that was asked for.
\<close>

lemma downloadFiles_README_ignores_size:
  assumes "\<forall>i\<in>{1..N}. \<exists>payloadStat_Size d. stat_of B bucket i = StatOk payloadStat_Size d"
  shows "\<exists>ts ss. downloadFiles_README B bucket fileSize N = Inr (ts, ss)
           \<and> length ts = nat N \<and> length ss = nat N
           \<and> (\<forall>i\<in>{1..N}. \<exists>payloadStat_Size d.
                 stat_of B bucket i = StatOk payloadStat_Size d
                 \<and> ts ! nat (i - 1) = d
                 \<and> ss ! nat (i - 1) =
                     float64_div (float64_div (float64_div (float64_of_int fileSize) (Seconds d))
                       (Finite 1024)) (Finite 1024))"
proof -
  have ok: "\<forall>j. 1 \<le> j \<and> j \<le> N \<longrightarrow> (\<exists>n d. stat_of B bucket j = StatOk n d)"
    using assms by simp
  let ?ts = "map (\<lambda>j. stat_elapsed (stat_of B bucket j)) [1..N]"
  let ?ss = "map (\<lambda>j. speed_MBps fileSize (stat_elapsed (stat_of B bucket j))) [1..N]"
  have "\<exists>n d. stat_of B bucket i = StatOk n d \<and> ?ts ! nat (i - 1) = d
          \<and> ?ss ! nat (i - 1) =
              float64_div (float64_div (float64_div (float64_of_int fileSize) (Seconds d))
                (Finite 1024)) (Finite 1024)"
    if i: "i \<in> {1..N}" for i
  proof -
    from i assms obtain n d where d: "stat_of B bucket i = StatOk n d" by blast
    have idx: "nat (i - 1) < length [1..N]" using i by simp
    have nth: "[1..N] ! nat (i - 1) = i" using i by simp
    show ?thesis
      using idx nth by (simp add: d speed_MBps_def)
  qed
  then show ?thesis
    using downloadFiles_README_success [OF ok, of fileSize] by simp
qed

text \<open>
  C4: every download trial verifies that the byte count it retrieved equals the expected size,
  a mismatch ends the whole run, and the speed of a trial is computed from the count it
  received. \<^verbatim>\<open>downloadFiles\<close> of \<^verbatim>\<open>main.go\<close> does that, and \<^verbatim>\<open>downloadFiles\<close> of the
  program listed in \<^verbatim>\<open>README.md\<close> does not. Three downloads of objects that should have 4
  bytes, where the object of trial 2 has 3: the function of \<^verbatim>\<open>README.md\<close> returns three
  samples, each the speed of 4 bytes in 5 ms (3 bytes in 5 ms are \<open>75/131072\<close> MB/s), where
  the function of \<^verbatim>\<open>main.go\<close> ends the run in trial 2 with \<open>Unmatched sizes: 3, 4\<close>.
\<close>

theorem download_size_unverified_README:
  "GetObject_Stat short_read_backend 2 ''bucket'' ''file-2.dat'' = StatOk 3 5000000
   \<and> GetObject short_read_backend 2 ''bucket'' ''file-2.dat'' = GetOk 3 5000000
   \<and> downloadFiles_README short_read_backend ''bucket'' 4 3
       = Inr ([5000000, 5000000, 5000000],
              [Finite (25 / 32768), Finite (25 / 32768), Finite (25 / 32768)])
   \<and> speed_MBps 4 5000000 = Finite (25 / 32768)
   \<and> speed_MBps 3 5000000 = Finite (75 / 131072)
   \<and> downloadFiles short_read_backend ''bucket'' 4 3 = Inl (UnmatchedSizes 3 4)"
proof (intro conjI)
  show "GetObject_Stat short_read_backend 2 ''bucket'' ''file-2.dat'' = StatOk 3 5000000"
    by (simp add: short_read_backend_def)
  show "GetObject short_read_backend 2 ''bucket'' ''file-2.dat'' = GetOk 3 5000000"
    by (simp add: short_read_backend_def)
  show "downloadFiles_README short_read_backend ''bucket'' 4 3
       = Inr ([5000000, 5000000, 5000000],
              [Finite (25 / 32768), Finite (25 / 32768), Finite (25 / 32768)])"
    by (rule short_read_downloads_README)
  show "speed_MBps 4 5000000 = Finite (25 / 32768)"
    by (rule speed_4_bytes_5ms(2))
  show "speed_MBps 3 5000000 = Finite (75 / 131072)"
    by (rule speed_3_bytes_5ms(2))
  show "downloadFiles short_read_backend ''bucket'' 4 3 = Inl (UnmatchedSizes 3 4)"
    by (rule short_read_downloads)
qed

text \<open>
  C8: for every trial count \<open>N \<ge> 1\<close>, a phase that ends normally has produced exactly
  \<open>N\<close> duration samples and \<open>N\<close> speed samples; and the upload phase ends normally when
  its buffer can be allocated (the file size is not negative, not above \<open>maxAlloc\<close> and not
  above the memory to be had) and every put succeeds, the download phase when every get
  succeeds and delivers the expected number of bytes.
\<close>

theorem sample_series_length:
  assumes "1 \<le> N"
  shows "(uploadFiles B bucket fileSize N = Inr (ts, ss) \<longrightarrow> length ts = nat N \<and> length ss = nat N)
       \<and> (downloadFiles B bucket expected N = Inr (ts', ss') \<longrightarrow>
            length ts' = nat N \<and> length ss' = nat N)
       \<and> (0 \<le> fileSize \<and> fileSize \<le> maxAlloc \<and> fileSize \<le> available_memory B
            \<and> (\<forall>i\<in>{1..N}. \<exists>d. put_of B bucket fileSize i = PutOk d) \<longrightarrow>
            (\<exists>ts ss. uploadFiles B bucket fileSize N = Inr (ts, ss)
                \<and> length ts = nat N \<and> length ss = nat N))
       \<and> ((\<forall>i\<in>{1..N}. \<exists>d. get_of B bucket i = GetOk expected d) \<longrightarrow>
            (\<exists>ts ss. downloadFiles B bucket expected N = Inr (ts, ss)
                \<and> length ts = nat N \<and> length ss = nat N))"
proof (intro conjI impI)
  assume "uploadFiles B bucket fileSize N = Inr (ts, ss)"
  from uploadFiles_Inr(3,4) [OF this]
  show "length ts = nat N" and "length ss = nat N" by simp_all
next
  assume "downloadFiles B bucket expected N = Inr (ts', ss')"
  from downloadFiles_Inr(2,3) [OF this]
  show "length ts' = nat N" and "length ss' = nat N" by simp_all
next
  assume a: "0 \<le> fileSize \<and> fileSize \<le> maxAlloc \<and> fileSize \<le> available_memory B
            \<and> (\<forall>i\<in>{1..N}. \<exists>d. put_of B bucket fileSize i = PutOk d)"
  then have fits: "0 \<le> fileSize \<and> fileSize \<le> maxAlloc \<and> fileSize \<le> available_memory B"
    by simp
  from a have "\<forall>j. 1 \<le> j \<and> j \<le> N \<longrightarrow> (\<exists>d. put_of B bucket fileSize j = PutOk d)" by simp
  from uploadFiles_success [OF fits this]
  show "\<exists>ts ss. uploadFiles B bucket fileSize N = Inr (ts, ss)
                \<and> length ts = nat N \<and> length ss = nat N"
    by simp
next
  assume "\<forall>i\<in>{1..N}. \<exists>d. get_of B bucket i = GetOk expected d"
  then have "\<forall>j. 1 \<le> j \<and> j \<le> N \<longrightarrow> (\<exists>d. get_of B bucket j = GetOk expected d)" by simp
  from downloadFiles_success [OF this]
  show "\<exists>ts ss. downloadFiles B bucket expected N = Inr (ts, ss)
                \<and> length ts = nat N \<and> length ss = nat N"
    by simp
qed

theorem sample_series_length_witness:
  "(\<exists>ts ss. uploadFiles steady_backend ''bucket'' 4 3 = Inr (ts, ss)
        \<and> length ts = 3 \<and> length ss = 3)
   \<and> (\<exists>ts ss. downloadFiles steady_backend ''bucket'' 4 3 = Inr (ts, ss)
        \<and> length ts = 3 \<and> length ss = 3)"
  using sample_series_length [of 3 steady_backend "''bucket''" 4 "[]" "[]" 4 "[]" "[]"]
  by (simp add: put_of_def get_of_def steady_backend_def maxAlloc_def)

text \<open>
  C6, as stated: an empty series never reaches the statistics, because a trial count of at
  least 1 is enforced upstream. \<^verbatim>\<open>main\<close> accepts any integer for \<^verbatim>\<open>-trials\<close>: with
  \<^verbatim>\<open>-trials 0\<close> and an otherwise complete command line both phases return empty series and
  \<^verbatim>\<open>calculateAverage\<close> is called on them, where the division by the length panics.
\<close>

theorem no_trials_counterexample:
  "uploadFiles steady_backend ''bucket'' 10485760 0 = Inr ([], [])
   \<and> main \<lparr> endpoint = ''play.min.io'', accessKey = ''key'', secretKey = ''secret'',
            bucketName = ''bucket'', fileSizeMb = 10, trials = 0 \<rparr> steady_environment
       = Inl (RuntimePanic DivideByZero)"
proof
  have "0 \<le> (10485760::int) \<and> 10485760 \<le> maxAlloc
          \<and> 10485760 \<le> available_memory steady_backend"
    by (simp add: maxAlloc_def steady_backend_def)
  moreover
  have "\<forall>j. 1 \<le> j \<and> j \<le> 0 \<longrightarrow> (\<exists>d. put_of steady_backend ''bucket'' 10485760 j = PutOk d)"
    by auto
  ultimately show "uploadFiles steady_backend ''bucket'' 10485760 0 = Inr ([], [])"
    by (simp add: uploadFiles_success)
  show "main \<lparr> endpoint = ''play.min.io'', accessKey = ''key'', secretKey = ''secret'',
            bucketName = ''bucket'', fileSizeMb = 10, trials = 0 \<rparr> steady_environment
       = Inl (RuntimePanic DivideByZero)"
    by (rule main_without_trials)
      (simp_all add: steady_environment_def steady_backend_def maxAlloc_def int64_wrap_def)
qed

text \<open>
  C6, amended: \<^verbatim>\<open>calculateAverage\<close> and \<^verbatim>\<open>calculateP90\<close> fail on an empty series, with the
  panics of a division by zero and of an index out of range. The program does not enforce a
  trial count of at least 1: when \<^verbatim>\<open>-trials\<close> is 0 or negative (the command line being
  complete, the client created, and the buffer of the upload phase allocated: the file size is
  not negative, not above \<open>maxAlloc\<close> and not above the memory to be had), the empty series
  reach \<^verbatim>\<open>calculateAverage\<close> and the process ends in its panic; when the file size is
  negative or above \<open>maxAlloc\<close>, the process ends in the panic of \<^verbatim>\<open>make\<close> before any
  series exists, whatever the trial count is. When the trial count is at least 1, every series
  that a phase returns is non-empty.
\<close>

theorem empty_series_panics:
  "calculateAverage [] = Inl DivideByZero
   \<and> calculateP90 lt [] = Inl IndexOutOfRange
   \<and> (endpoint f \<noteq> [] \<and> bucketName f \<noteq> []
        \<and> (accessKey f \<noteq> [] \<or> S3_ACCESS_KEY env \<noteq> [])
        \<and> (secretKey f \<noteq> [] \<or> S3_SECRET_KEY env \<noteq> [])
        \<and> \<not> client_fails env
        \<and> 0 \<le> int64_wrap (fileSizeMb f * (1024 * 1024))
        \<and> int64_wrap (fileSizeMb f * (1024 * 1024)) \<le> maxAlloc
        \<and> int64_wrap (fileSizeMb f * (1024 * 1024)) \<le> available_memory (storage env)
        \<and> trials f \<le> 0 \<longrightarrow>
      main f env = Inl (RuntimePanic DivideByZero))
   \<and> (endpoint f \<noteq> [] \<and> bucketName f \<noteq> []
        \<and> (accessKey f \<noteq> [] \<or> S3_ACCESS_KEY env \<noteq> [])
        \<and> (secretKey f \<noteq> [] \<or> S3_SECRET_KEY env \<noteq> [])
        \<and> \<not> client_fails env
        \<and> (int64_wrap (fileSizeMb f * (1024 * 1024)) < 0
             \<or> maxAlloc < int64_wrap (fileSizeMb f * (1024 * 1024))) \<longrightarrow>
      main f env = Inl (RuntimePanic MakeSliceLenOutOfRange))
   \<and> (1 \<le> N \<and> uploadFiles B bucket fileSize N = Inr (ts, ss) \<longrightarrow> ts \<noteq> [] \<and> ss \<noteq> [])
   \<and> (1 \<le> N \<and> downloadFiles B bucket expected N = Inr (ts', ss') \<longrightarrow> ts' \<noteq> [] \<and> ss' \<noteq> [])"
proof (intro conjI impI)
  show "calculateAverage [] = Inl DivideByZero" by (rule calculateAverage_empty)
  show "calculateP90 lt [] = Inl IndexOutOfRange" by (rule calculateP90_empty)
next
  assume "endpoint f \<noteq> [] \<and> bucketName f \<noteq> []
        \<and> (accessKey f \<noteq> [] \<or> S3_ACCESS_KEY env \<noteq> [])
        \<and> (secretKey f \<noteq> [] \<or> S3_SECRET_KEY env \<noteq> [])
        \<and> \<not> client_fails env
        \<and> 0 \<le> int64_wrap (fileSizeMb f * (1024 * 1024))
        \<and> int64_wrap (fileSizeMb f * (1024 * 1024)) \<le> maxAlloc
        \<and> int64_wrap (fileSizeMb f * (1024 * 1024)) \<le> available_memory (storage env)
        \<and> trials f \<le> 0"
  then show "main f env = Inl (RuntimePanic DivideByZero)"
    by (intro main_without_trials) simp_all
next
  assume "endpoint f \<noteq> [] \<and> bucketName f \<noteq> []
        \<and> (accessKey f \<noteq> [] \<or> S3_ACCESS_KEY env \<noteq> [])
        \<and> (secretKey f \<noteq> [] \<or> S3_SECRET_KEY env \<noteq> [])
        \<and> \<not> client_fails env
        \<and> (int64_wrap (fileSizeMb f * (1024 * 1024)) < 0
             \<or> maxAlloc < int64_wrap (fileSizeMb f * (1024 * 1024)))"
  then show "main f env = Inl (RuntimePanic MakeSliceLenOutOfRange)"
    by (intro main_buffer_too_large) simp_all
next
  assume a: "1 \<le> N \<and> uploadFiles B bucket fileSize N = Inr (ts, ss)"
  then have "length ts = nat N" "length ss = nat N"
    using uploadFiles_Inr(3,4) [of B bucket fileSize N ts ss] by simp_all
  with a show "ts \<noteq> []" and "ss \<noteq> []" by auto
next
  assume a: "1 \<le> N \<and> downloadFiles B bucket expected N = Inr (ts', ss')"
  then have "length ts' = nat N" "length ss' = nat N"
    using downloadFiles_Inr(2,3) [of B bucket expected N ts' ss'] by simp_all
  with a show "ts' \<noteq> []" and "ss' \<noteq> []" by auto
qed

text \<open>
  \<^verbatim>\<open>-fileSize 1 -trials -1\<close> ends in the division by zero, \<^verbatim>\<open>-fileSize 268435457 -trials 0\<close>
  (\<open>2^48 + 2^20\<close> bytes) in the panic of \<^verbatim>\<open>make\<close>, and two trials give series of two samples.
\<close>

theorem empty_series_panics_witness:
  "main \<lparr> endpoint = ''play.min.io'', accessKey = [], secretKey = ''secret'',
          bucketName = ''bucket'', fileSizeMb = 1, trials = - 1 \<rparr>
        \<lparr> S3_ACCESS_KEY = ''key'', S3_SECRET_KEY = [], client_fails = False,
          storage = instant_backend \<rparr>
     = Inl (RuntimePanic DivideByZero)
   \<and> main \<lparr> endpoint = ''play.min.io'', accessKey = [], secretKey = ''secret'',
          bucketName = ''bucket'', fileSizeMb = 268435457, trials = 0 \<rparr>
        \<lparr> S3_ACCESS_KEY = ''key'', S3_SECRET_KEY = [], client_fails = False,
          storage = instant_backend \<rparr>
     = Inl (RuntimePanic MakeSliceLenOutOfRange)
   \<and> uploadFiles steady_backend ''bucket'' 4 2
       = Inr ([10000000, 20000000], [Finite (25 / 65536), Finite (25 / 131072)])
   \<and> downloadFiles steady_backend ''bucket'' 4 2
       = Inr ([5000000, 10000000], [Finite (25 / 32768), Finite (25 / 65536)])"
  using empty_series_panics [of less_Duration
      "\<lparr> endpoint = ''play.min.io'', accessKey = [], secretKey = ''secret'',
          bucketName = ''bucket'', fileSizeMb = 1, trials = - 1 \<rparr>"
      "\<lparr> S3_ACCESS_KEY = ''key'', S3_SECRET_KEY = [], client_fails = False,
          storage = instant_backend \<rparr>"
      2 steady_backend "''bucket''" 4 "[10000000, 20000000]"
      "[Finite (25 / 65536), Finite (25 / 131072)]" 4 "[5000000, 10000000]"
      "[Finite (25 / 32768), Finite (25 / 65536)]"]
    empty_series_panics [of less_Duration
      "\<lparr> endpoint = ''play.min.io'', accessKey = [], secretKey = ''secret'',
          bucketName = ''bucket'', fileSizeMb = 268435457, trials = 0 \<rparr>"
      "\<lparr> S3_ACCESS_KEY = ''key'', S3_SECRET_KEY = [], client_fails = False,
          storage = instant_backend \<rparr>"
      2 steady_backend "''bucket''" 4 "[10000000, 20000000]"
      "[Finite (25 / 65536), Finite (25 / 131072)]" 4 "[5000000, 10000000]"
      "[Finite (25 / 32768), Finite (25 / 65536)]"]
  by (simp add: steady_uploads steady_downloads int64_wrap_def maxAlloc_def instant_backend_def)

section \<open>The object keys\<close>

lemma digits_value_snoc: "digits_value (s @ [c]) = 10 * digits_value s + (of_char c - 48)"
  by (simp add: digits_value_def)

lemma digits_value_digits: "digits_value (digits n) = n"
proof (induction n rule: digits.induct)
  case (1 n)
  show ?case
  proof (cases "n < 10")
    case True
    then have "digits n = [char_of (48 + n)]" by (subst digits.simps) simp
    moreover have "(48 + n) mod 256 = 48 + n" using True by simp
    ultimately show ?thesis by (simp add: digits_value_def)
  next
    case False
    then have d: "digits n = digits (n div 10) @ [char_of (48 + n mod 10)]"
      by (subst digits.simps) simp
    have "(48 + n mod 10) mod 256 = 48 + n mod 10"
      by (rule mod_less) (simp add: less_trans [OF add_strict_left_mono [of "n mod 10" 10 48]])
    with "1.IH" [OF False] show ?thesis
      by (simp add: d digits_value_snoc)
  qed
qed

lemma Sprintf_d_inj:
  assumes "0 \<le> i" "0 \<le> j" "Sprintf_d i = Sprintf_d j"
  shows "i = j"
proof -
  from assms have "digits (nat i) = digits (nat j)" by (simp add: Sprintf_d_def)
  then have "digits_value (digits (nat i)) = digits_value (digits (nat j))" by simp
  then have "nat i = nat j" by (simp only: digits_value_digits)
  with assms(1,2) show ?thesis by simp
qed

lemma trial_key_inj:
  assumes "0 \<le> i" "0 \<le> j" "trial_key i = trial_key j"
  shows "i = j"
  using assms by (auto simp: trial_key_def intro: Sprintf_d_inj)

lemma object_store_snoc:
  "object_store (reqs @ [(bucket, key, data)]) m = (object_store reqs m)((bucket, key) \<mapsto> data)"
  by (simp add: object_store_def)

lemma object_store_trials:
  assumes "i \<in> set js" "distinct js" "\<forall>j\<in>set js. 0 \<le> j"
  shows "object_store (map (\<lambda>j. (bucket, trial_key j, dat j)) js) m (bucket, trial_key i)
           = Some (dat i)"
  using assms
proof (induction js rule: rev_induct)
  case Nil
  then show ?case by simp
next
  case (snoc j js)
  show ?case
  proof (cases "i = j")
    case True
    then show ?thesis by (simp add: object_store_snoc)
  next
    case False
    with snoc.prems have i: "i \<in> set js" by simp
    have "trial_key j \<noteq> trial_key i"
      using False snoc.prems(3) i trial_key_inj [of j i] by auto
    moreover have "object_store (map (\<lambda>j. (bucket, trial_key j, dat j)) js) m (bucket, trial_key i)
           = Some (dat i)"
      using snoc.IH [OF i] snoc.prems by simp
    ultimately show ?thesis by (simp add: object_store_snoc)
  qed
qed

lemma Sprintf_d_examples: "Sprintf_d 1 = ''1''" "Sprintf_d 2 = ''2''" "Sprintf_d 10 = ''10''"
  by (simp_all add: Sprintf_d_def digits.simps char_of_eq_iff)

text \<open>
  C7: for every trial index \<open>i\<close> in \<open>1..trialCount\<close> the key is \<open>file-i.dat\<close>, with
  \<open>i\<close> in decimal, in both phases: the request of download trial \<open>i\<close> names the key that
  the request of upload trial \<open>i\<close> wrote. No other trial of the run uses that key, so in the
  object store that the uploads leave behind the key of download trial \<open>i\<close> holds the data
  sent by upload trial \<open>i\<close>.
\<close>

theorem paired_trial_keys:
  assumes "upload_trials B bucket fileSize N = Inr up"
    and "download_trials B bucket expected N = Inr down"
    and "1 \<le> i" and "i \<le> N"
  shows "put_requests up ! nat (i - 1)
           = (bucket, ''file-'' @ Sprintf_d i @ ''.dat'', map (rand_Read B i) [0..<nat fileSize])
       \<and> get_requests down ! nat (i - 1) = (bucket, ''file-'' @ Sprintf_d i @ ''.dat'')
       \<and> length (put_requests up) = nat N \<and> length (get_requests down) = nat N
       \<and> (\<forall>j\<in>{1..N}. j \<noteq> i \<longrightarrow>
            ''file-'' @ Sprintf_d j @ ''.dat'' \<noteq> ''file-'' @ Sprintf_d i @ ''.dat'')
       \<and> object_store (put_requests up) m (get_requests down ! nat (i - 1))
           = Some (map (rand_Read B i) [0..<nat fileSize])"
proof -
  note u = upload_trials_Inr [OF assms(1)]
  from upload_trials_success [OF u] assms(1)
  have up: "put_requests up = map (\<lambda>j. (bucket, trial_key j, trial_data B fileSize j)) [1..N]"
    by auto
  note d = download_trials_Inr [OF assms(2)]
  from download_trials_success [OF d] assms(2)
  have down: "get_requests down = map (\<lambda>j. (bucket, trial_key j)) [1..N]"
    by auto
  have idx: "nat (i - 1) < length [1..N]" using assms(3,4) by simp
  have nth: "[1..N] ! nat (i - 1) = i" using assms(3,4) by simp
  have p: "put_requests up ! nat (i - 1) = (bucket, trial_key i, trial_data B fileSize i)"
    using idx nth by (simp add: up)
  have g: "get_requests down ! nat (i - 1) = (bucket, trial_key i)"
    using idx nth by (simp add: down)
  have others: "\<forall>j\<in>{1..N}. j \<noteq> i \<longrightarrow> trial_key j \<noteq> trial_key i"
    using assms(3) trial_key_inj by force
  have "object_store (map (\<lambda>j. (bucket, trial_key j, trial_data B fileSize j)) [1..N]) m
          (bucket, trial_key i) = Some (trial_data B fileSize i)"
    using assms(3,4) by (intro object_store_trials) simp_all
  then have s: "object_store (put_requests up) m (get_requests down ! nat (i - 1))
          = Some (trial_data B fileSize i)"
    by (simp add: up g)
  show ?thesis
    using p g others s
    by (simp add: up down trial_key_def trial_data_def)
qed

text \<open>
  In a run of three trials that all succeed, the second download asks for \<open>file-2.dat\<close>,
  which holds the four bytes of the second upload.
\<close>

theorem paired_trial_keys_witness:
  "\<exists>up down. upload_trials steady_backend ''bucket'' 4 3 = Inr up
     \<and> download_trials steady_backend ''bucket'' 4 3 = Inr down
     \<and> put_requests up ! 1 = (''bucket'', ''file-2.dat'', [0, 1, 2, 3])
     \<and> get_requests down ! 1 = (''bucket'', ''file-2.dat'')
     \<and> object_store (put_requests up) Map.empty (get_requests down ! 1) = Some [0, 1, 2, 3]"
proof -
  have "0 \<le> (4::int) \<and> 4 \<le> maxAlloc \<and> 4 \<le> available_memory steady_backend"
    by (simp add: maxAlloc_def steady_backend_def)
  moreover
  have "\<forall>j. 1 \<le> j \<and> j \<le> 3 \<longrightarrow> (\<exists>d. put_of steady_backend ''bucket'' 4 j = PutOk d)"
    by (simp add: put_of_def steady_backend_def)
  ultimately
  obtain up where up: "upload_trials steady_backend ''bucket'' 4 3 = Inr up"
    using upload_trials_success [of 4 steady_backend 3 "''bucket''"] by simp
  have "\<forall>j. 1 \<le> j \<and> j \<le> 3 \<longrightarrow> (\<exists>d. get_of steady_backend ''bucket'' j = GetOk 4 d)"
    by (simp add: get_of_def steady_backend_def)
  from download_trials_success [OF this]
  obtain down where down: "download_trials steady_backend ''bucket'' 4 3 = Inr down" by simp
  have four: "[0..<4] = [0, 1, 2, 3::nat]" by (simp add: upt_rec)
  from paired_trial_keys [OF up down, of 2 Map.empty]
  have "put_requests up ! 1 = (''bucket'', ''file-2.dat'', [0, 1, 2, 3])"
    and "get_requests down ! 1 = (''bucket'', ''file-2.dat'')"
    and "object_store (put_requests up) Map.empty (get_requests down ! 1) = Some [0, 1, 2, 3]"
    by (auto simp add: Sprintf_d_examples steady_backend_def four)
  with up down show ?thesis by blast
qed

end
